theory Spec2Isabelle
  imports Main "HOL-Library.Word"
begin

unbundle bit_operations_syntax

section \<open>Data model\<close>

text \<open>
  A Python \<open>bytes\<close> object is a list of 8-bit words. A Python \<open>str\<close> is the list of its
  code points (Python integers, so \<open>int\<close>): \<open>ord\<close> and \<open>chr\<close> are the identity on them, and
  \<open>chr\<close> raises outside \<open>range(0x110000)\<close>. Every exception of the source is a value of
  \<open>error\<close>; a function that can raise returns \<open>error + 'a\<close>.
\<close>

type_synonym byte = "8 word"
type_synonym bytes = "byte list"
type_synonym str = "int list"

datatype error =
    ValueError
  | TypeError
  | IndexError
  | LookupError
  | USBError int
  | ProtocolError string
  | DeviceError string

text \<open>\<open>to_byte = lambda c: bytes([c])\<close>: raises \<open>ValueError\<close> outside \<open>range(256)\<close>.\<close>

definition to_byte :: "int \<Rightarrow> error + byte" where
  "to_byte c = (if 0 \<le> c \<and> c < 256 then Inr (word_of_int c) else Inl ValueError)"

text \<open>\<open>to_uni = chr\<close>: raises \<open>ValueError\<close> outside \<open>range(0x110000)\<close>.\<close>

definition to_uni :: "int \<Rightarrow> error + int" where
  "to_uni c = (if 0 \<le> c \<and> c < 0x110000 then Inr c else Inl ValueError)"

section \<open>Transport framing adapter (msr605x.py)\<close>

definition SEQUENCE_START_BIT :: int where "SEQUENCE_START_BIT = 0x80"
definition SEQUENCE_END_BIT :: int where "SEQUENCE_END_BIT = 0x40"
definition SEQUENCE_LENGTH_BITS :: int where "SEQUENCE_LENGTH_BITS = 0x3F"

text \<open>\<open>MSR605X._make_header\<close>; the result is the one-byte \<open>bytes([header])\<close>.\<close>

definition make_header :: "bool \<Rightarrow> bool \<Rightarrow> int \<Rightarrow> error + bytes" where
  "make_header start_of_sequence end_of_sequence len =
     (if len < 0 \<or> len > 63 then Inl ValueError
      else
        let header = len;
            header = (if start_of_sequence then header OR SEQUENCE_START_BIT else header);
            header = (if end_of_sequence then header OR SEQUENCE_END_BIT else header)
        in case to_byte header of Inl e \<Rightarrow> Inl e | Inr b \<Rightarrow> Inr [b])"

text \<open>
  \<open>MSR605X._encapsulate_message\<close>: the \<open>while idx < len(message)\<close> loop of the generator,
  started at \<open>idx\<close>; the result is the list of the packets it yields, or the exception
  of \<open>_make_header\<close>.
\<close>

function encapsulate_loop :: "nat \<Rightarrow> bytes \<Rightarrow> error + bytes list" where
  "encapsulate_loop idx message =
     (if idx < length message then
        (let payload = take 63 (drop idx message) in
         case make_header (idx = 0) (int (length message) - int idx < 64)
                (int (length payload)) of
           Inl e \<Rightarrow> Inl e
         | Inr header \<Rightarrow>
             (let padding = replicate (63 - length payload) (0 :: byte) in
              case encapsulate_loop (idx + 63) message of
                Inl e \<Rightarrow> Inl e
              | Inr rest \<Rightarrow> Inr ((header @ payload @ padding) # rest)))
      else Inr [])"
  by pat_completeness auto
termination
  by (relation "measure (\<lambda>(idx, message). length message - idx)") auto

definition encapsulate_message :: "bytes \<Rightarrow> error + bytes list" where
  "encapsulate_message message = encapsulate_loop 0 message"

text \<open>
  The device object. \<open>endpoint_in\<close> lists what the coming calls of
  \<open>hid_endpoint.read\<close> give, in order: \<open>Inr packet\<close>, or \<open>Inl errno\<close> for a \<open>USBError\<close>
  (errno 110 is the timeout). An exhausted list stands for a device that stays silent:
  the read times out. \<open>recv_timeouts\<close> logs the \<open>timeout\<close> argument of every
  endpoint read, \<open>ctrl_out\<close> the packets given to \<open>ctrl_transfer\<close>, and \<open>buffer\<close> is
  \<open>self.buffer\<close>.
\<close>

record usb_dev =
  endpoint_in :: "(int + bytes) list"
  recv_timeouts :: "int list"
  ctrl_out :: "bytes list"
  buffer :: bytes

text \<open>\<open>MSR605X._recv_packet\<close>: \<open>None\<close> on a timeout, any other \<open>USBError\<close> is raised again.\<close>

definition recv_packet :: "int \<Rightarrow> usb_dev \<Rightarrow> (error + bytes option) \<times> usb_dev" where
  "recv_packet timeout st =
     (let st' = st\<lparr>recv_timeouts := recv_timeouts st @ [timeout]\<rparr> in
      case endpoint_in st of
        [] \<Rightarrow> (Inr None, st')
      | Inr packet # evs \<Rightarrow> (Inr (Some packet), st'\<lparr>endpoint_in := evs\<rparr>)
      | Inl errno # evs \<Rightarrow>
          (if errno = 110 then (Inr None, st'\<lparr>endpoint_in := evs\<rparr>)
           else (Inl (USBError errno), st'\<lparr>endpoint_in := evs\<rparr>)))"

text \<open>
  \<open>MSR605X.recv_message\<close>: the \<open>while True\<close> loop with the accumulated \<open>message\<close>.
  \<open>packet[0]\<close> raises \<open>TypeError\<close> when \<open>packet\<close> is \<open>None\<close> and \<open>IndexError\<close> when the
  packet is empty. The value returned after the loop is \<open>payload\<close>.
\<close>

function recv_message_loop :: "int \<Rightarrow> bytes \<Rightarrow> usb_dev \<Rightarrow> (error + bytes option) \<times> usb_dev" where
  "recv_message_loop timeout message st =
     (case recv_packet timeout st of
        (Inl e, st') \<Rightarrow> (Inl e, st')
      | (Inr None, st') \<Rightarrow>
          (if message = [] then (Inr None, st') else (Inl TypeError, st'))
      | (Inr (Some packet), st') \<Rightarrow>
          (case packet of
             [] \<Rightarrow> (Inl IndexError, st')
           | p0 # _ \<Rightarrow>
               (let payload_length = uint p0 AND SEQUENCE_LENGTH_BITS;
                    payload = take (nat payload_length) (drop 1 packet);
                    message' = message @ payload
                in if uint p0 AND SEQUENCE_END_BIT \<noteq> 0 then (Inr (Some payload), st')
                   else recv_message_loop timeout message' st')))"
  by pat_completeness auto
termination
proof (relation "measure (\<lambda>(timeout, message, st). length (endpoint_in st))")
  show "wf (measure (\<lambda>(timeout, message, st). length (endpoint_in st)))" by simp
next
  fix timeout :: int and message :: bytes and st :: usb_dev
    and x :: "error + bytes option" and st' :: usb_dev and v :: "bytes option"
    and packet :: bytes
  assume "(x, st') = recv_packet timeout st" "x = Inr v" "v = Some packet"
  then have "length (endpoint_in st') < length (endpoint_in st)"
    by (auto simp: recv_packet_def Let_def split: list.splits sum.splits if_splits)
  then show "\<And>p0 ps pl pay msg. ((timeout, msg, st'), (timeout, message, st))
      \<in> measure (\<lambda>(timeout, message, st). length (endpoint_in st))"
    by simp
qed

definition recv_message :: "int \<Rightarrow> usb_dev \<Rightarrow> (error + bytes option) \<times> usb_dev" where
  "recv_message timeout st = recv_message_loop timeout [] st"

text \<open>
  \<open>MSR605X._send_packet\<close> and \<open>MSR605X.send_message\<close>. The generator never raises
  (\<open>make_header_eq\<close> below: a chunk has at most 63 bytes), so sending its packets one by
  one is sending the list.
\<close>

definition send_packet :: "bytes \<Rightarrow> usb_dev \<Rightarrow> usb_dev" where
  "send_packet packet st = st\<lparr>ctrl_out := ctrl_out st @ [packet]\<rparr>"

definition send_message :: "bytes \<Rightarrow> usb_dev \<Rightarrow> (error + unit) \<times> usb_dev" where
  "send_message message st =
     (case encapsulate_message message of
        Inl e \<Rightarrow> (Inl e, st)
      | Inr packets \<Rightarrow> (Inr (), fold send_packet packets st))"

text \<open>\<open>MSR605X.flush\<close>, \<open>MSR605X.write\<close> and \<open>MSR605X.read\<close> (\<open>count\<close> is never negative).\<close>

definition MSR605X_flush :: "usb_dev \<Rightarrow> usb_dev" where
  "MSR605X_flush st = st\<lparr>buffer := []\<rparr>"

definition MSR605X_write :: "bytes \<Rightarrow> usb_dev \<Rightarrow> (error + unit) \<times> usb_dev" where
  "MSR605X_write d st = send_message d st"

definition MSR605X_read :: "nat \<Rightarrow> usb_dev \<Rightarrow> (error + bytes) \<times> usb_dev" where
  "MSR605X_read count st =
     (let buf_len = length (buffer st);
          timeout = (if count = 0 then 100 else 0);
          r = (if count > buf_len \<or> count = 0 then
                 (case recv_message timeout st of
                    (Inl e, st') \<Rightarrow> (Inl e, st')
                  | (Inr None, st') \<Rightarrow> (Inr (), st')
                  | (Inr (Some new_data), st') \<Rightarrow>
                      (Inr (), st'\<lparr>buffer := buffer st' @ new_data\<rparr>))
               else (Inr (), st))
      in case r of
           (Inl e, st1) \<Rightarrow> (Inl e, st1)
         | (Inr _, st1) \<Rightarrow>
             (if count = 0 then (Inr (buffer st1), st1\<lparr>buffer := []\<rparr>)
              else (Inr (take count (buffer st1)), st1\<lparr>buffer := drop count (buffer st1)\<rparr>)))"

text \<open>
  The header fields as the receiver reads them (\<open>packet[0] & SEQUENCE_..._BIT\<close>), for a
  packet that is not empty.
\<close>

definition start_of_sequence :: "bytes \<Rightarrow> bool" where
  "start_of_sequence packet = (uint (hd packet) AND SEQUENCE_START_BIT \<noteq> 0)"

definition end_of_sequence :: "bytes \<Rightarrow> bool" where
  "end_of_sequence packet = (uint (hd packet) AND SEQUENCE_END_BIT \<noteq> 0)"

definition payload_length :: "bytes \<Rightarrow> int" where
  "payload_length packet = uint (hd packet) AND SEQUENCE_LENGTH_BITS"

text \<open>
  The packets in closed form: chunk \<open>i\<close> of a message is its bytes \<open>63 i\<close> to \<open>63 i + 62\<close>,
  a message has \<open>packet_count\<close> chunks, and \<open>fragment\<close> is the packet of chunk \<open>i\<close>.
\<close>

definition chunk :: "bytes \<Rightarrow> nat \<Rightarrow> bytes" where
  "chunk message i = take 63 (drop (63 * i) message)"

definition packet_count :: "bytes \<Rightarrow> nat" where
  "packet_count message = (length message + 62) div 63"

definition header_byte :: "bool \<Rightarrow> bool \<Rightarrow> int \<Rightarrow> byte" where
  "header_byte s e len = word_of_int (len OR (if s then 0x80 else 0) OR (if e then 0x40 else 0))"

definition fragment :: "bytes \<Rightarrow> nat \<Rightarrow> bytes" where
  "fragment message i =
     header_byte (i = 0) (i + 1 = packet_count message) (int (length (chunk message i)))
       # chunk message i @ replicate (63 - length (chunk message i)) 0"

section \<open>Command protocol (class MSRX)\<close>

text \<open>
  \<open>self._dev\<close> is a byte channel with \<open>write\<close>, \<open>flush\<close> and \<open>read\<close>: a serial port of
  the \<open>serial\<close> library or the adapter above. The protocol is modelled over a serial
  channel: \<open>incoming\<close> holds the bytes the device delivers, in order, and \<open>written\<close> the
  argument of every \<open>write\<close> call, in order. \<open>read(n)\<close> takes \<open>n\<close> bytes, fewer when the
  device has no more to give (a read that times out); the \<open>flush\<close> of a serial port
  waits for the output to drain and changes nothing here (the adapter's own \<open>flush\<close> is
  \<open>MSR605X_flush\<close> above).
\<close>

record port =
  incoming :: bytes
  written :: "bytes list"

definition dev_write :: "bytes \<Rightarrow> port \<Rightarrow> port" where
  "dev_write d p = p\<lparr>written := written p @ [d]\<rparr>"

definition dev_flush :: "port \<Rightarrow> port" where
  "dev_flush p = p"

definition dev_read :: "nat \<Rightarrow> port \<Rightarrow> bytes \<times> port" where
  "dev_read n p = (take n (incoming p), p\<lparr>incoming := drop n (incoming p)\<rparr>)"

definition TRACK_CNT :: nat where "TRACK_CNT = 3"

text \<open>\<open>binascii.hexlify(d).decode("utf-8")\<close>: two lower-case hexadecimal digits a byte.\<close>

definition hexdigit :: "nat \<Rightarrow> char" where
  "hexdigit n = ''0123456789abcdef'' ! n"

definition hexlify :: "bytes \<Rightarrow> string" where
  "hexlify d = concat (map (\<lambda>b. [hexdigit (unat (drop_bit 4 b)), hexdigit (unat (b AND 15))]) d)"

text \<open>\<open>ord\<close> of a \<open>bytes\<close> object: its length must be 1.\<close>

definition ord_bytes :: "bytes \<Rightarrow> error + int" where
  "ord_bytes d = (case d of [b] \<Rightarrow> Inr (uint b) | _ \<Rightarrow> Inl TypeError)"

text \<open>The categories of \<open>DeviceError\<close> and the table \<open>MSRX._DEV_ERR\<close>.\<close>

definition RW :: string where "RW = ''read_write''"
definition CMD :: string where "CMD = ''command''"
definition SWP :: string where "SWP = ''swipe''"
definition ERASE :: string where "ERASE = ''erase''"

definition DEV_ERR :: "bytes \<rightharpoonup> string" where
  "DEV_ERR = [[0x31] \<mapsto> RW, [0x32] \<mapsto> CMD, [0x34] \<mapsto> CMD, [0x39] \<mapsto> SWP, [0x41] \<mapsto> ERASE]"

text \<open>\<open>MSRX._send\<close> and \<open>MSRX._expect\<close>.\<close>

definition send :: "bytes \<Rightarrow> port \<Rightarrow> port" where
  "send d p = dev_flush (dev_write d p)"

definition expect :: "bytes \<Rightarrow> port \<Rightarrow> (error + unit) \<times> port" where
  "expect d p =
     (let (rd, p') = dev_read (length d) p in
      if rd \<noteq> d then
        (Inl (ProtocolError (''expected '' @ hexlify d @ '', got '' @ hexlify rd)), p')
      else (Inr (), p'))"

text \<open>\<open>MSRX._handle_status\<close>.\<close>

definition handle_status :: "port \<Rightarrow> (error + unit) \<times> port" where
  "handle_status p =
     (case expect [0x1B] p of
        (Inl e, p1) \<Rightarrow> (Inl e, p1)
      | (Inr _, p1) \<Rightarrow>
          (let (status, p2) = dev_read 1 p1 in
           if status = [0x30] then (Inr (), p2)
           else (case DEV_ERR status of
                   Some code \<Rightarrow> (Inl (DeviceError code), p2)
                 | None \<Rightarrow> (Inl (ProtocolError (''invalid status '' @ hexlify status)), p2))))"

text \<open>
  \<open>MSRX.read\<close>. Both \<open>while True\<close> loops can spin for ever (on a silent device every
  \<open>read(1)\<close> gives \<open>b''\<close>, which no branch leaves on), so they take fuel, one unit an
  iteration, and \<open>None\<close> is a run that has not returned. \<open>tracks[t]\<close> with \<open>t = -1\<close> is
  Python's last element. The global \<open>_RAW\<close> is the parameter \<open>raw\<close>.
\<close>

definition track_slot :: "int \<Rightarrow> bytes list \<Rightarrow> nat" where
  "track_slot t tracks = nat (if t < 0 then t + int (length tracks) else t)"

fun read_track :: "nat \<Rightarrow> int \<Rightarrow> bytes list \<Rightarrow> port \<Rightarrow> (bytes list \<times> port) option" where
  "read_track 0 t tracks p = None"
| "read_track (Suc fuel) t tracks p =
     (let (d, p1) = dev_read 1 p in
      if d = [0x1B] then (let (d', p2) = dev_read 1 p1 in Some (tracks, p2))
      else if d = [0x25] \<or> d = [0x3B] then read_track fuel t tracks p1
      else if d = [0x3F] then Some (tracks, p1)
      else read_track fuel t
             (tracks[track_slot t tracks := tracks ! track_slot t tracks @ d]) p1)"

fun read_loop :: "nat \<Rightarrow> bytes list \<Rightarrow> port \<Rightarrow> ((error + bytes list) \<times> port) option" where
  "read_loop 0 tracks p = None"
| "read_loop (Suc fuel) tracks p =
     (let (d, p1) = dev_read 1 p in
      if d = [0x3F] then
        (case expect [0x1C] p1 of
           (Inl e, p2) \<Rightarrow> Some (Inl e, p2)
         | (Inr _, p2) \<Rightarrow>
             (case handle_status p2 of
                (Inl e, p3) \<Rightarrow> Some (Inl e, p3)
              | (Inr _, p3) \<Rightarrow> Some (Inr tracks, p3)))
      else if d = [0x1B] then
        (let (d, p2) = dev_read 1 p1 in
         case ord_bytes d of
           Inl e \<Rightarrow> Some (Inl e, p2)
         | Inr c \<Rightarrow>
             (if c \<le> int TRACK_CNT then
                (let t = c - 1 in
                 case read_track fuel t tracks p2 of
                   None \<Rightarrow> None
                 | Some (tracks', p3) \<Rightarrow> read_loop fuel tracks' p3)
              else read_loop fuel tracks p2))
      else read_loop fuel tracks p1)"

definition MSRX_read :: "nat \<Rightarrow> bool \<Rightarrow> port \<Rightarrow> ((error + bytes list) \<times> port) option" where
  "MSRX_read fuel raw p =
     (let tracks = replicate TRACK_CNT [];
          p1 = (if raw then send [0x1B, 0x6D] p else send [0x1B, 0x72] p)
      in case expect [0x1B, 0x73] p1 of
           (Inl e, p2) \<Rightarrow> Some (Inl e, p2)
         | (Inr _, p2) \<Rightarrow> read_loop fuel tracks p2)"

text \<open>
  \<open>MSRX.write\<close>: the \<open>for t, i in zip(tracks, range(_TRACK_CNT))\<close> loop, then the
  terminator and the status. \<open>to_byte(len(t))\<close> raises for a track longer than 255 bytes.
\<close>

fun write_tracks :: "bool \<Rightarrow> (bytes \<times> nat) list \<Rightarrow> port \<Rightarrow> (error + unit) \<times> port" where
  "write_tracks raw [] p = (Inr (), p)"
| "write_tracks raw ((t, i) # rest) p =
     (if raw then
        (case to_byte (int i + 1) of
           Inl e \<Rightarrow> (Inl e, p)
         | Inr bi \<Rightarrow>
             (case to_byte (int (length t)) of
                Inl e \<Rightarrow> (Inl e, p)
              | Inr bl \<Rightarrow> write_tracks raw rest (send ([0x1B] @ [bi] @ [bl] @ t) p)))
      else
        (case to_byte (int i + 1) of
           Inl e \<Rightarrow> (Inl e, p)
         | Inr bi \<Rightarrow> write_tracks raw rest (send ([0x1B] @ [bi] @ t) p)))"

definition MSRX_write :: "bool \<Rightarrow> bytes list \<Rightarrow> port \<Rightarrow> (error + unit) \<times> port" where
  "MSRX_write raw tracks p =
     (let p1 = (if raw then send [0x1B, 0x6E, 0x1B, 0x73] p
                else send [0x1B, 0x77, 0x1B, 0x73] p)
      in case write_tracks raw (zip tracks [0..<TRACK_CNT]) p1 of
           (Inl e, p2) \<Rightarrow> (Inl e, p2)
         | (Inr _, p2) \<Rightarrow> handle_status (send [0x3F, 0x1C] p2))"

text \<open>
  A reply of the device to the read command in ascii mode, for track 1 = \<open>ABC\<close>, track 2
  empty and track 3 = \<open>XY\<close>: \<open>ESC s\<close>, then \<open>ESC 01 % A B C ?\<close>, \<open>ESC 02 ; ?\<close>,
  \<open>ESC 03 ; X Y ?\<close>, then the terminator \<open>? FS\<close> and the status \<open>ESC 0\<close>.
\<close>

definition reply_ABC_XY :: bytes where
  "reply_ABC_XY =
     [0x1B, 0x73,
      0x1B, 0x01, 0x25, 0x41, 0x42, 0x43, 0x3F,
      0x1B, 0x02, 0x3B, 0x3F,
      0x1B, 0x03, 0x3B, 0x58, 0x59, 0x3F,
      0x3F, 0x1C, 0x1B, 0x30]"

text \<open>No track buffer holds a padding character, \<open>%\<close> (0x25) or \<open>;\<close> (0x3B).\<close>

definition no_padding :: "bytes list \<Rightarrow> bool" where
  "no_padding tracks = (\<forall>t \<in> set tracks. 0x25 \<notin> set t \<and> 0x3B \<notin> set t)"

section \<open>Density codec (class ISO7811)\<close>

definition PARAM_MAP :: "nat \<rightharpoonup> int \<times> nat" where
  "PARAM_MAP = [1 \<mapsto> (0x20, 7), 2 \<mapsto> (0x30, 5), 3 \<mapsto> (0x30, 5)]"

text \<open>
  \<open>ISO7811._dec\<close>: from a character string to bytes. \<open>atbit\<close> and \<open>bits\<close> are shift
  counts; Python raises \<open>ValueError\<close> for a negative one, which \<open>1 << (bits - 1)\<close> is for
  \<open>bits = 0\<close> and \<open>part >> (bits - atbit)\<close> for \<open>bits < atbit\<close>. The result is the joined
  output of the generator, or its exception.
\<close>

fun dec_loop :: "int \<Rightarrow> nat \<Rightarrow> nat \<Rightarrow> int \<Rightarrow> str \<Rightarrow> error + bytes" where
  "dec_loop low bits atbit whole [] =
     (if atbit > 0 then (case to_byte whole of Inl e \<Rightarrow> Inl e | Inr b \<Rightarrow> Inr [b])
      else Inr [])"
| "dec_loop low bits atbit whole (d # data) =
     (if bits = 0 then Inl ValueError
      else
        let part = (d - low) AND (push_bit (bits - 1) 1 - 1);
            part = part OR
              push_bit (bits - 1)
                (NOT (((part * 0x0101010101010101) AND 0x8040201008040201) mod 0x1FF) AND 1);
            whole = whole OR (push_bit atbit part AND 255);
            atbit = atbit + bits
        in if atbit > 7 then
             (case to_byte whole of
                Inl e \<Rightarrow> Inl e
              | Inr b \<Rightarrow>
                  (let atbit = atbit mod 8 in
                   if bits < atbit then Inl ValueError
                   else
                     let whole = drop_bit (bits - atbit) part in
                     case dec_loop low bits atbit whole data of
                       Inl e \<Rightarrow> Inl e
                     | Inr bs \<Rightarrow> Inr (b # bs)))
           else dec_loop low bits atbit whole data)"

definition dec :: "str \<Rightarrow> int \<Rightarrow> nat \<Rightarrow> error + bytes" where
  "dec data low bits = dec_loop low bits 0 0 data"

text \<open>
  \<open>ISO7811._enc\<close>: from bytes to a character string. \<open>next(data)\<close> on the exhausted
  iterator raises \<open>StopIteration\<close>, which ends the generator (\<open>None\<close> below), as
  \<open>part == 0\<close> does. The shift count \<open>bits - atbit\<close> raises \<open>ValueError\<close> when negative.
\<close>

function enc_loop :: "int \<Rightarrow> nat \<Rightarrow> nat \<Rightarrow> int \<Rightarrow> bytes \<Rightarrow> error + str" where
  "enc_loop low bits atbit whole data =
     (let part = drop_bit atbit whole AND (push_bit bits 1 - 1);
          atbit = atbit + bits
      in case (if atbit > 7 then
                 (case data of
                    [] \<Rightarrow> Inr None
                  | d # data' \<Rightarrow>
                      (let whole = uint d;
                           atbit = atbit mod 8
                       in if bits < atbit then Inl ValueError
                          else Inr (Some
                            (part OR push_bit (bits - atbit) (whole AND (push_bit atbit 1 - 1)),
                             atbit, whole, data'))))
               else Inr (Some (part, atbit, whole, data))) of
           Inl e \<Rightarrow> Inl e
         | Inr None \<Rightarrow> Inr []
         | Inr (Some (part, atbit, whole, data)) \<Rightarrow>
             (if part = 0 then Inr []
              else (case to_uni ((part AND (push_bit (bits - 1) 1 - 1)) + low) of
                      Inl e \<Rightarrow> Inl e
                    | Inr c \<Rightarrow>
                        (case enc_loop low bits atbit whole data of
                           Inl e \<Rightarrow> Inl e
                         | Inr cs \<Rightarrow> Inr (c # cs)))))"
  by pat_completeness auto
termination
proof (relation "measure (\<lambda>(low, bits, atbit, whole, data). length data * 9 + (8 - atbit))")
  show "wf (measure (\<lambda>(low, bits, atbit, whole, data). length data * 9 + (8 - atbit)))"
    by simp
next
  fix low :: int and bits atbit :: nat and whole :: int and data :: bytes
    and part :: int and atbit1 :: nat and x :: "(int \<times> nat \<times> int \<times> bytes) option"
    and y :: "int \<times> nat \<times> int \<times> bytes"
    and part' :: int and z :: "nat \<times> int \<times> bytes" and atbit' :: nat
    and w :: "int \<times> bytes" and whole' :: int and data' :: bytes
  assume part: "part = drop_bit atbit whole AND (push_bit bits 1 - 1)"
    and atbit1: "atbit1 = atbit + bits"
    and sel: "(if 7 < atbit1 then
                 (case data of [] \<Rightarrow> Inr None
                  | d # data' \<Rightarrow>
                      (let whole = uint d; atbit = atbit1 mod 8
                       in if bits < atbit then Inl ValueError
                          else Inr (Some
                            (part OR push_bit (bits - atbit) (whole AND (push_bit atbit 1 - 1)),
                             atbit, whole, data'))))
               else Inr (Some (part, atbit1, whole, data))) = Inr x"
    and x: "x = Some y"
    and y: "(part', z) = y" "(atbit', w) = z" "(whole', data') = w"
    and nz: "part' \<noteq> 0"
  show "((low, bits, atbit', whole', data'), (low, bits, atbit, whole, data))
      \<in> measure (\<lambda>(low, bits, atbit, whole, data). length data * 9 + (8 - atbit))"
  proof (cases "7 < atbit1")
    case True
    with sel x y obtain d where "data = d # data'" "atbit' = atbit1 mod 8"
      by (auto split: list.splits if_splits simp: Let_def)
    then show ?thesis by simp
  next
    case False
    with sel x y have eq: "part' = part" "atbit' = atbit1" "data' = data" by auto
    have "bits \<noteq> 0" using nz eq part by (auto intro: ccontr)
    with False eq atbit1 show ?thesis by simp
  qed
qed

text \<open>
  The start of \<open>_enc\<close>: \<open>atbit, whole = 0, ord(next(data))\<close>, where an empty input already
  raises \<open>StopIteration\<close>.
\<close>

definition enc :: "bytes \<Rightarrow> int \<Rightarrow> nat \<Rightarrow> error + str" where
  "enc data low bits =
     (case data of [] \<Rightarrow> Inr [] | d # data' \<Rightarrow> enc_loop low bits 0 (uint d) data')"

text \<open>
  The codecs that \<open>codec_search\<close> registers as \<open>iso7811-t1\<close>, \<open>-t2\<close> and \<open>-t3\<close>, as
  \<open>codecs.encode\<close> and \<open>codecs.decode\<close> call them; any other track is a \<open>LookupError\<close>.
\<close>

definition encode :: "bytes \<Rightarrow> nat \<Rightarrow> error + str" where
  "encode data track =
     (case PARAM_MAP track of
        None \<Rightarrow> Inl LookupError
      | Some (low, bits) \<Rightarrow> enc data low bits)"

definition decode :: "str \<Rightarrow> nat \<Rightarrow> error + bytes" where
  "decode data track =
     (case PARAM_MAP track of
        None \<Rightarrow> Inl LookupError
      | Some (low, bits) \<Rightarrow> dec data low bits)"

text \<open>\<open>decode(encode(b, track))\<close>: the exception of either step is the result's.\<close>

definition decode_encode :: "bytes \<Rightarrow> nat \<Rightarrow> error + bytes" where
  "decode_encode b track =
     (case encode b track of Inl e \<Rightarrow> Inl e | Inr s \<Rightarrow> decode s track)"

subsection \<open>The packing in the specification's words\<close>

text \<open>
  The byte stream read least-significant-bits-first is the number whose base-256 digits
  are the bytes, lowest first. Group \<open>k\<close> is its \<open>bits\<close> wide slice from bit \<open>bits * k\<close> on.
  \<open>group_count\<close> is the number of complete groups of the input.
\<close>

definition stream_value :: "bytes \<Rightarrow> int" where
  "stream_value data = horner_sum uint 256 data"

definition group_at :: "nat \<Rightarrow> bytes \<Rightarrow> nat \<Rightarrow> int" where
  "group_at bits data k = take_bit bits (drop_bit (bits * k) (stream_value data))"

definition group_count :: "nat \<Rightarrow> bytes \<Rightarrow> nat" where
  "group_count bits data = (8 * length data) div bits"

definition groups :: "nat \<Rightarrow> bytes \<Rightarrow> int list" where
  "groups bits data = map (group_at bits data) [0..<group_count bits data]"

text \<open>The character of a group: its \<open>bits - 1\<close> data bits plus \<open>low\<close>.\<close>

definition group_char :: "int \<Rightarrow> nat \<Rightarrow> int \<Rightarrow> int" where
  "group_char low bits g = take_bit (bits - 1) g + low"

text \<open>The alphabet of a track: \<open>[low, low + 2^(bits-1) - 1]\<close>.\<close>

definition in_alphabet :: "int \<Rightarrow> nat \<Rightarrow> int \<Rightarrow> bool" where
  "in_alphabet low bits c = (low \<le> c \<and> c < low + 2 ^ (bits - 1))"

text \<open>
  What the proofs below need. \<open>dec_group\<close> is the group that \<open>_dec\<close> builds from a
  character (its two assignments to \<open>part\<close>): the data bits and, above them, the parity
  bit computed from them. \<open>pack\<close> is the number that a list of groups makes when they
  are laid out lowest first, \<open>bits\<close> bits each. \<open>groups_from\<close> lists the groups of a
  number \<open>N\<close> from bit \<open>a\<close> on that end before bit \<open>L\<close>.
\<close>

definition dec_group :: "int \<Rightarrow> nat \<Rightarrow> int \<Rightarrow> int" where
  "dec_group low bits d =
     (let part = take_bit (bits - 1) (d - low) in
      part OR push_bit (bits - 1)
        (NOT (((part * 0x0101010101010101) AND 0x8040201008040201) mod 0x1FF) AND 1))"

definition pack :: "nat \<Rightarrow> int list \<Rightarrow> int" where
  "pack bits gs = foldr (concat_bit bits) gs 0"

definition groups_from :: "nat \<Rightarrow> int \<Rightarrow> nat \<Rightarrow> nat \<Rightarrow> int list" where
  "groups_from bits N L a =
     map (\<lambda>k. take_bit bits (drop_bit (a + bits * k) N)) [0..<(L - a - 1) div bits]"

section \<open>Properties of the framing adapter\<close>

text \<open>The bits of the header constants.\<close>

lemma bit_128: "bit (128::int) n = (n = 7)"
proof -
  have "(128::int) = 2 ^ 7" by simp
  then show ?thesis by (simp only: bit_exp_iff) auto
qed

lemma bit_64: "bit (64::int) n = (n = 6)"
proof -
  have "(64::int) = 2 ^ 6" by simp
  then show ?thesis by (simp only: bit_exp_iff) auto
qed

lemma bit_63: "bit (63::int) n = (n < 6)"
proof -
  have "(63::int) = mask 6" by (simp add: mask_eq_exp_minus_1)
  then show ?thesis by (simp only: bit_mask_iff) auto
qed

lemma and_128_iff: "((x::int) AND 128 \<noteq> 0) = bit x 7"
  using and_exp_eq_0_iff_not_bit [of x 7] by simp

lemma and_64_iff: "((x::int) AND 64 \<noteq> 0) = bit x 6"
  using and_exp_eq_0_iff_not_bit [of x 6] by simp

lemma header_bits:
  fixes len :: int and s e :: bool
  assumes "0 \<le> len" "len < 64"
  defines "h \<equiv> len OR (if s then 0x80 else 0) OR (if e then 0x40 else 0)"
  shows "h AND 0x3F = len" "(h AND 0x80 \<noteq> 0) = s" "(h AND 0x40 \<noteq> 0) = e"
    "0 \<le> h" "h < 256" "take_bit 8 h = h"
proof -
  have "len = take_bit 6 len" using assms by (simp add: take_bit_int_eq_self)
  then obtain x where x: "len = take_bit 6 x" ..
  show "h AND 0x3F = len" unfolding x h_def
    by (rule bit_eqI) (auto simp add: bit_simps bit_128 bit_64 bit_63)
  show "(h AND 0x80 \<noteq> 0) = s" unfolding x h_def and_128_iff
    by (auto simp add: bit_simps bit_128 bit_64 bit_63)
  show "(h AND 0x40 \<noteq> 0) = e" unfolding x h_def and_64_iff
    by (auto simp add: bit_simps bit_128 bit_64 bit_63)
  show tb: "take_bit 8 h = h" unfolding x h_def
    by (rule bit_eqI) (auto simp add: bit_simps bit_128 bit_64 bit_63)
  then have "0 \<le> h \<and> h < 2 ^ 8"
    by (metis take_bit_int_less_exp take_bit_nonnegative)
  then show "0 \<le> h" "h < 256" by simp_all
qed

declare encapsulate_loop.simps [simp del]
declare recv_message_loop.simps [simp del]

lemma make_header_eq:
  assumes "0 \<le> len" "len < 64"
  shows "make_header s e len = Inr [header_byte s e len]"
proof -
  let ?h = "len OR (if s then 0x80 else 0) OR (if e then 0x40 else 0)"
  have "0 \<le> ?h" "?h < 256" using header_bits(4,5) [OF assms] by auto
  then have "to_byte ?h = Inr (word_of_int ?h)" by (simp add: to_byte_def)
  moreover have "make_header s e len = (case to_byte ?h of Inl e \<Rightarrow> Inl e | Inr b \<Rightarrow> Inr [b])"
    using assms
    by (cases s; cases e)
      (simp_all add: make_header_def Let_def SEQUENCE_START_BIT_def SEQUENCE_END_BIT_def or.assoc)
  ultimately show ?thesis by (simp add: header_byte_def)
qed

lemma uint_header_byte:
  assumes "0 \<le> len" "len < 64"
  shows "uint (header_byte s e len) = len OR (if s then 0x80 else 0) OR (if e then 0x40 else 0)"
proof -
  let ?h = "len OR (if s then 0x80 else 0) OR (if e then 0x40 else 0)"
  have tb: "take_bit 8 ?h = ?h" by (rule header_bits(6) [OF assms])
  have *: "uint (word_of_int x :: byte) = take_bit 8 x" for x
    by (simp add: uint_word_of_int_eq)
  show ?thesis unfolding header_byte_def * by (rule tb)
qed

lemma length_chunk: "length (chunk m i) = min 63 (length m - 63 * i)"
  by (simp add: chunk_def)

lemma lt_packet_count: "(i < packet_count m) = (63 * i < length m)"
  unfolding packet_count_def by (auto simp add: less_mult_imp_div_less div_less_iff_less_mult)

lemma last_packet_iff:
  assumes "i < packet_count m"
  shows "(int (length m) - int (63 * i) < 64) = (i + 1 = packet_count m)"
proof -
  have "(i + 1 = packet_count m) = (\<not> (i + 1 < packet_count m))"
    using assms by auto
  also have "\<dots> = (\<not> 63 * (i + 1) < length m)" by (simp only: lt_packet_count)
  finally show ?thesis by auto
qed

lemma encapsulate_loop_fragments:
  "k \<le> packet_count m \<Longrightarrow>
    encapsulate_loop (63 * k) m = Inr (map (fragment m) [k..<packet_count m])"
proof (induction "packet_count m - k" arbitrary: k)
  case 0
  then have "k = packet_count m" by simp
  then have "\<not> 63 * k < length m" using lt_packet_count [of k m] by simp
  then have "encapsulate_loop (63 * k) m = Inr []"
    by (subst encapsulate_loop.simps) simp
  then show ?case using \<open>k = packet_count m\<close> by simp
next
  case (Suc n)
  then have lt: "k < packet_count m" by simp
  then have idx: "63 * k < length m" by (simp add: lt_packet_count)
  have len: "0 \<le> int (length (chunk m k))" "int (length (chunk m k)) < 64"
    by (simp_all add: length_chunk)
  have hdr: "make_header (63 * k = 0) (int (length m) - int (63 * k) < 64)
              (int (length (chunk m k)))
      = Inr [header_byte (k = 0) (k + 1 = packet_count m) (int (length (chunk m k)))]"
    using make_header_eq [OF len] last_packet_iff [OF lt] by simp
  have rec: "encapsulate_loop (63 * k + 63) m = Inr (map (fragment m) [Suc k..<packet_count m])"
    using Suc.hyps(1) [of "Suc k"] Suc.hyps(2) lt by (simp add: algebra_simps)
  have "encapsulate_loop (63 * k) m =
      Inr (fragment m k # map (fragment m) [Suc k..<packet_count m])"
    using idx hdr rec
    by (simp add: encapsulate_loop.simps [of "63 * k" m] Let_def chunk_def [symmetric] fragment_def
        del: mult_eq_0_iff)
  then show ?case using lt by (simp add: upt_conv_Cons)
qed

lemma encapsulate_message_fragments:
  "encapsulate_message m = Inr (map (fragment m) [0..<packet_count m])"
  using encapsulate_loop_fragments [of 0 m] by (simp add: encapsulate_message_def)

lemma fragment_fields:
  assumes "i < packet_count m"
  shows "length (fragment m i) = 64"
    and "start_of_sequence (fragment m i) = (i = 0)"
    and "end_of_sequence (fragment m i) = (i + 1 = packet_count m)"
    and "payload_length (fragment m i) = int (length (chunk m i))"
    and "take (length (chunk m i)) (tl (fragment m i)) = chunk m i"
proof -
  have len: "0 \<le> int (length (chunk m i))" "int (length (chunk m i)) < 64"
    by (simp_all add: length_chunk)
  show "length (fragment m i) = 64" by (simp add: fragment_def length_chunk)
  show "start_of_sequence (fragment m i) = (i = 0)"
    using header_bits(2) [OF len]
    by (simp add: start_of_sequence_def fragment_def uint_header_byte [OF len] SEQUENCE_START_BIT_def)
  show "end_of_sequence (fragment m i) = (i + 1 = packet_count m)"
    using header_bits(3) [OF len]
    by (simp add: end_of_sequence_def fragment_def uint_header_byte [OF len] SEQUENCE_END_BIT_def)
  show "payload_length (fragment m i) = int (length (chunk m i))"
    using header_bits(1) [OF len]
    by (simp add: payload_length_def fragment_def uint_header_byte [OF len] SEQUENCE_LENGTH_BITS_def)
  show "take (length (chunk m i)) (tl (fragment m i)) = chunk m i"
    by (simp add: fragment_def)
qed

text \<open>
  Claim C3, as the code has it: fragmenting a message gives \<open>ceil(len / 63)\<close> packets (none
  for the empty message, where the \<open>while\<close> loop is never entered), each 64 bytes long;
  the start bit is set in the first packet only, the end bit in the last only, the length
  field of packet \<open>i\<close> is the byte count of chunk \<open>i\<close>, and the payload is the chunk.
\<close>

theorem encapsulate_message_packets:
  "\<exists>ps. encapsulate_message m = Inr ps \<and> length ps = (length m + 62) div 63 \<and>
     (\<forall>i < length ps.
        length (ps ! i) = 64 \<and>
        start_of_sequence (ps ! i) = (i = 0) \<and>
        end_of_sequence (ps ! i) = (i + 1 = length ps) \<and>
        payload_length (ps ! i) = int (length (chunk m i)) \<and>
        take (length (chunk m i)) (tl (ps ! i)) = chunk m i)"
proof -
  let ?ps = "map (fragment m) [0..<packet_count m]"
  have "encapsulate_message m = Inr ?ps" by (rule encapsulate_message_fragments)
  moreover have "length ?ps = (length m + 62) div 63" by (simp add: packet_count_def)
  moreover have "\<forall>i < length ?ps.
        length (?ps ! i) = 64 \<and>
        start_of_sequence (?ps ! i) = (i = 0) \<and>
        end_of_sequence (?ps ! i) = (i + 1 = length ?ps) \<and>
        payload_length (?ps ! i) = int (length (chunk m i)) \<and>
        take (length (chunk m i)) (tl (?ps ! i)) = chunk m i"
    using fragment_fields [of _ m] by simp
  ultimately show ?thesis by blast
qed

text \<open>At a one-byte message: one packet, both bits set, length field 1.\<close>

theorem encapsulate_message_packets_witness:
  "\<exists>ps. encapsulate_message [0x41] = Inr ps \<and> length ps = 1 \<and> length (ps ! 0) = 64 \<and>
     start_of_sequence (ps ! 0) \<and> end_of_sequence (ps ! 0) \<and> payload_length (ps ! 0) = 1 \<and>
     take 1 (tl (ps ! 0)) = [0x41]"
  using encapsulate_message_packets [of "[0x41]"] by (auto simp add: chunk_def)

text \<open>
  Claim C3 as stated asks for a minimum of one packet, with the end bit set, also for the
  empty message: the code yields no packet at all.
\<close>

theorem encapsulate_message_empty:
  "encapsulate_message [] = Inr [] \<and>
   \<not> (\<exists>ps. encapsulate_message [] = Inr ps \<and> length ps = 1)"
  using encapsulate_message_fragments [of "[]"] by (simp add: packet_count_def)


lemma recv_packet_buffer: "buffer (snd (recv_packet t st)) = buffer st"
  by (simp add: recv_packet_def Let_def split: list.split sum.split)

lemma recv_message_loop_buffer: "buffer (snd (recv_message_loop t msg st)) = buffer st"
proof (induction t msg st rule: recv_message_loop.induct)
  case (1 timeout message st)
  obtain r st' where rp: "recv_packet timeout st = (r, st')" by (cases "recv_packet timeout st")
  then have b: "buffer st' = buffer st" using recv_packet_buffer [of timeout st] by simp
  show ?case
  proof (cases r)
    case (Inl e)
    with rp b show ?thesis by (subst recv_message_loop.simps) simp
  next
    case (Inr v)
    show ?thesis
    proof (cases v)
      case None
      with Inr rp b show ?thesis by (subst recv_message_loop.simps) simp
    next
      case (Some packet)
      show ?thesis
      proof (cases packet)
        case Nil
        with Some Inr rp b show ?thesis by (subst recv_message_loop.simps) simp
      next
        case (Cons p0 ps)
        show ?thesis
          using "1.IH" [OF rp [symmetric] Inr Some Cons refl refl refl] Cons Some Inr rp b
          by (subst recv_message_loop.simps) (simp add: Let_def)
      qed
    qed
  qed
qed

lemma recv_message_buffer: "recv_message t st = (r, st') \<Longrightarrow> buffer st' = buffer st"
  using recv_message_loop_buffer [of t "[]" st] by (simp add: recv_message_def)

text \<open>
  Claim C2 at a 64-byte message (63 bytes \<open>a\<close>, then \<open>z\<close>): it is fragmented into two
  packets, and \<open>recv_message\<close> on these two packets returns the payload of the last
  packet, the one byte \<open>z\<close>, not the message.
\<close>

theorem recv_message_returns_last_payload:
  "encapsulate_message (replicate 63 a @ [z]) =
      Inr [0xBF # replicate 63 a, 0x41 # z # replicate 62 0] \<and>
   recv_message t (st\<lparr>endpoint_in := [Inr (0xBF # replicate 63 a), Inr (0x41 # z # replicate 62 0)]\<rparr>)
     = (Inr (Some [z]), st\<lparr>endpoint_in := [], recv_timeouts := recv_timeouts st @ [t, t]\<rparr>) \<and>
   [z] \<noteq> replicate 63 a @ [z]"
proof -
  have "encapsulate_message (replicate 63 a @ [z]) =
      Inr [0xBF # replicate 63 a, 0x41 # z # replicate 62 0]"
    by (simp add: encapsulate_message_fragments packet_count_def fragment_def chunk_def
        header_byte_def upt_conv_Cons)
  moreover have "recv_message t
      (st\<lparr>endpoint_in := [Inr (0xBF # replicate 63 a), Inr (0x41 # z # replicate 62 0)]\<rparr>)
     = (Inr (Some [z]), st\<lparr>endpoint_in := [], recv_timeouts := recv_timeouts st @ [t, t]\<rparr>)"
    by (simp add: recv_message_def recv_message_loop.simps recv_packet_def Let_def
        SEQUENCE_LENGTH_BITS_def SEQUENCE_END_BIT_def)
  moreover have "[z] \<noteq> replicate 63 a @ [z]"
  proof
    assume "[z] = replicate 63 a @ [z]"
    then have "length [z] = length (replicate 63 a @ [z])" by (rule arg_cong)
    then show False by simp
  qed
  ultimately show ?thesis by blast
qed

text \<open>
  Claim C9, as the code has it. \<open>read(0)\<close> makes one \<open>recv_message\<close> call with timeout
  100, returns the buffer with the received payload appended and leaves the buffer
  empty. \<open>read(n)\<close> for \<open>n > 0\<close> makes no receive when \<open>n\<close> bytes are buffered and one
  \<open>recv_message\<close> call with timeout 0 otherwise; it returns the first \<open>n\<close> bytes of the
  buffer (all of them when there are fewer) and keeps the rest.
\<close>

theorem MSR605X_read_result:
  "MSR605X_read n st =
     (if 0 < n \<and> n \<le> length (buffer st) then
        (Inr (take n (buffer st)), st\<lparr>buffer := drop n (buffer st)\<rparr>)
      else
        (case recv_message (if n = 0 then 100 else 0) st of
           (Inl e, st') \<Rightarrow> (Inl e, st')
         | (Inr new_data, st') \<Rightarrow>
             (let b = buffer st @ (case new_data of None \<Rightarrow> [] | Some d \<Rightarrow> d) in
              if n = 0 then (Inr b, st'\<lparr>buffer := []\<rparr>)
              else (Inr (take n b), st'\<lparr>buffer := drop n b\<rparr>))))"
proof (cases "0 < n \<and> n \<le> length (buffer st)")
  case True
  then show ?thesis by (auto simp add: MSR605X_read_def Let_def)
next
  case False
  obtain r st' where rm: "recv_message (if n = 0 then 100 else 0) st = (r, st')"
    by (cases "recv_message (if n = 0 then 100 else 0) st")
  have b: "buffer st' = buffer st" by (rule recv_message_buffer [OF rm])
  from False rm b show ?thesis
    by (cases r; cases n)
      (auto simp add: MSR605X_read_def Let_def not_le split: option.splits)
qed

text \<open>
  Claim C9 as stated has \<open>read(n)\<close> return exactly \<open>n\<close> bytes: with an empty buffer and a
  device that sends one message of one byte, \<open>read(2)\<close> returns that one byte.
\<close>

theorem MSR605X_read_short:
  "MSR605X_read 2 \<lparr>endpoint_in = [Inr (0xC1 # 0x41 # replicate 62 0)], recv_timeouts = [],
       ctrl_out = [], buffer = []\<rparr>
     = (Inr [0x41], \<lparr>endpoint_in = [], recv_timeouts = [0], ctrl_out = [], buffer = []\<rparr>) \<and>
   length [0x41 :: byte] \<noteq> 2"
  by (simp add: MSR605X_read_def recv_message_def recv_message_loop.simps recv_packet_def Let_def
        SEQUENCE_LENGTH_BITS_def SEQUENCE_END_BIT_def)

text \<open>
  Claim C10: \<open>flush\<close> empties the buffer whatever it held, touches neither the endpoint
  nor the packets sent, and a later \<open>read\<close> gives what it gives on an empty buffer: the
  discarded bytes \<open>pending\<close> have no effect on it.
\<close>

theorem MSR605X_flush_discards:
  "MSR605X_flush (st\<lparr>buffer := pending\<rparr>) = st\<lparr>buffer := []\<rparr> \<and>
   endpoint_in (MSR605X_flush st) = endpoint_in st \<and>
   recv_timeouts (MSR605X_flush st) = recv_timeouts st \<and>
   ctrl_out (MSR605X_flush st) = ctrl_out st \<and>
   MSR605X_read n (MSR605X_flush (st\<lparr>buffer := pending\<rparr>)) = MSR605X_read n (st\<lparr>buffer := []\<rparr>)"
  by (simp add: MSR605X_flush_def)

section \<open>Properties of the command protocol\<close>

lemma hexlify_single:
  "hexlify [s] = [hexdigit (unat (drop_bit 4 s)), hexdigit (unat (s AND 15))]"
  by (simp add: hexlify_def)

lemma DEV_ERR_single:
  "DEV_ERR [s] =
     (if s = 0x41 then Some ERASE else if s = 0x39 then Some SWP
      else if s = 0x34 then Some CMD else if s = 0x32 then Some CMD
      else if s = 0x31 then Some RW else None)"
  by (simp add: DEV_ERR_def)

text \<open>
  Claim C4: when the device delivers a byte \<open>b\<close> and then a byte \<open>s\<close>, status handling
  raises a protocol error unless \<open>b\<close> is the escape byte; after the escape byte, \<open>s = '0'\<close>
  returns normally, \<open>'1'\<close> raises the read/write device error, \<open>'2'\<close> and \<open>'4'\<close> the command
  error, \<open>'9'\<close> the swipe error, \<open>'A'\<close> the erase error, and any other \<open>s\<close> a protocol error
  whose message ends with the two hexadecimal digits of \<open>s\<close>. Both bytes are consumed.
\<close>

theorem handle_status_result:
  "handle_status (p\<lparr>incoming := b # s # rest\<rparr>) =
     (if b \<noteq> 0x1B then
        (Inl (ProtocolError (''expected 1b, got '' @ hexlify [b])), p\<lparr>incoming := s # rest\<rparr>)
      else
        ((if s = 0x30 then Inr ()
          else if s = 0x31 then Inl (DeviceError ''read_write'')
          else if s = 0x32 \<or> s = 0x34 then Inl (DeviceError ''command'')
          else if s = 0x39 then Inl (DeviceError ''swipe'')
          else if s = 0x41 then Inl (DeviceError ''erase'')
          else Inl (ProtocolError (''invalid status '' @ hexlify [s]))),
         p\<lparr>incoming := rest\<rparr>)) \<and>
   hexlify [s] = [hexdigit (unat (drop_bit 4 s)), hexdigit (unat (s AND 15))] \<and>
   hexlify [0x7A] = ''7a''"
  by (simp add: handle_status_def expect_def dev_read_def DEV_ERR_single hexlify_def
      RW_def CMD_def SWP_def ERASE_def hexdigit_def)

text \<open>
  Claim C8, as the code has it: \<open>write\<close> sends the write-mode command, then for each of the
  three tracks in order, empty or not, the escape byte, the track number, the length byte
  in raw mode only, and the track's data, then \<open>? FS\<close>; its result is that of the status
  handling that follows. In raw mode a track must be at most 255 bytes long.
\<close>

theorem MSRX_write_emits:
  assumes "raw \<longrightarrow> length t1 < 256 \<and> length t2 < 256 \<and> length t3 < 256"
  shows "MSRX_write raw [t1, t2, t3] p =
     handle_status (p\<lparr>written := written p @
       [if raw then [0x1B, 0x6E, 0x1B, 0x73] else [0x1B, 0x77, 0x1B, 0x73],
        [0x1B, 1] @ (if raw then [of_nat (length t1)] else []) @ t1,
        [0x1B, 2] @ (if raw then [of_nat (length t2)] else []) @ t2,
        [0x1B, 3] @ (if raw then [of_nat (length t3)] else []) @ t3,
        [0x3F, 0x1C]]\<rparr>)"
proof (cases raw)
  case True
  with assms have l: "length t1 < 256" "length t2 < 256" "length t3 < 256" by simp_all
  have z: "zip [t1, t2, t3] [0..<TRACK_CNT] = [(t1, 0), (t2, 1), (t3, 2)]"
    by (simp add: TRACK_CNT_def upt_conv_Cons)
  show ?thesis using True l
    by (simp add: MSRX_write_def z to_byte_def send_def dev_write_def dev_flush_def)
next
  case False
  have z: "zip [t1, t2, t3] [0..<TRACK_CNT] = [(t1, 0), (t2, 1), (t3, 2)]"
    by (simp add: TRACK_CNT_def upt_conv_Cons)
  show ?thesis using False
    by (simp add: MSRX_write_def z to_byte_def send_def dev_write_def dev_flush_def)
qed

text \<open>Raw mode, tracks \<open>AB\<close>, empty and \<open>C\<close>, status \<open>0\<close>.\<close>

theorem MSRX_write_emits_witness:
  "MSRX_write True [[0x41, 0x42], [], [0x43]] \<lparr>incoming = [0x1B, 0x30], written = []\<rparr> =
     (Inr (), \<lparr>incoming = [], written =
        [[0x1B, 0x6E, 0x1B, 0x73], [0x1B, 1, 2, 0x41, 0x42], [0x1B, 2, 0], [0x1B, 3, 1, 0x43],
         [0x3F, 0x1C]]\<rparr>)"
  using MSRX_write_emits [of True "[0x41, 0x42]" "[]" "[0x43]" "\<lparr>incoming = [0x1B, 0x30], written = []\<rparr>"]
  by (simp add: handle_status_def expect_def dev_read_def)

text \<open>
  Claim C8 as stated skips a preserved (empty) track: for the tracks \<open>A\<close>, empty and \<open>B\<close>
  in ascii mode the code sends \<open>ESC 02\<close> all the same.
\<close>

theorem MSRX_write_sends_preserved_track:
  "concat (written (snd (MSRX_write False [[0x41], [], [0x42]]
       \<lparr>incoming = [0x1B, 0x30], written = []\<rparr>))) =
     [0x1B, 0x77, 0x1B, 0x73, 0x1B, 1, 0x41, 0x1B, 2, 0x1B, 3, 0x42, 0x3F, 0x1C] \<and>
   [0x1B, 0x77, 0x1B, 0x73, 0x1B, 1, 0x41, 0x1B, 2, 0x1B, 3, 0x42, 0x3F, 0x1C] \<noteq>
     [0x1B, 0x77, 0x1B, 0x73, 0x1B, 1, 0x41, 0x1B, 3, 0x42, 0x3F, 0x1C :: byte]"
  by (simp add: MSRX_write_def TRACK_CNT_def upt_conv_Cons to_byte_def send_def dev_write_def
      dev_flush_def handle_status_def expect_def dev_read_def)

lemma read_track_mono:
  "read_track n t tracks p = Some r \<Longrightarrow> read_track (n + k) t tracks p = Some r"
proof (induction n arbitrary: tracks p)
  case 0
  then show ?case by simp
next
  case (Suc n)
  show ?case using Suc.prems Suc.IH
    by (auto simp add: Let_def split: prod.splits if_splits)
qed

lemma read_loop_mono:
  "read_loop n tracks p = Some r \<Longrightarrow> read_loop (n + k) tracks p = Some r"
proof (induction n arbitrary: tracks p)
  case 0
  then show ?case by simp
next
  case (Suc n)
  show ?case using Suc.prems Suc.IH read_track_mono [where n = n and k = k]
    by (auto simp add: Let_def split: prod.splits if_splits sum.splits option.splits)
qed

lemma MSRX_read_mono:
  "MSRX_read n raw p = Some r \<Longrightarrow> MSRX_read (n + k) raw p = Some r"
  by (auto simp add: MSRX_read_def Let_def read_loop_mono split: prod.splits sum.splits)

lemma dev_read_1: "dev_read 1 p = (d, p') \<Longrightarrow> d = take 1 (incoming p)"
  by (auto simp add: dev_read_def)

lemma no_padding_update:
  assumes "no_padding tracks" "0x25 \<notin> set d" "0x3B \<notin> set d"
  shows "no_padding (tracks[i := tracks ! i @ d])"
proof (cases "i < length tracks")
  case True
  then have "tracks ! i \<in> set tracks" by simp
  with assms have "0x25 \<notin> set (tracks ! i @ d) \<and> 0x3B \<notin> set (tracks ! i @ d)"
    by (auto simp add: no_padding_def)
  moreover have "set (tracks[i := tracks ! i @ d]) \<subseteq> insert (tracks ! i @ d) (set tracks)"
    by (rule set_update_subset_insert)
  ultimately show ?thesis using assms(1) unfolding no_padding_def by blast
next
  case False
  then show ?thesis using assms(1) by (simp add: list_update_beyond)
qed

lemma take_1_cases: "take 1 xs = [] \<or> (\<exists>x. take 1 xs = [x])"
  by (cases xs) auto

lemma read_track_no_padding:
  "read_track n t tracks p = Some (tracks', p') \<Longrightarrow> no_padding tracks \<Longrightarrow> no_padding tracks'"
proof (induction n arbitrary: tracks p)
  case 0
  then show ?case by simp
next
  case (Suc n)
  obtain d p1 where d: "dev_read 1 p = (d, p1)" by (cases "dev_read 1 p")
  then have "d = take 1 (incoming p)" by (rule dev_read_1)
  then have dc: "d = [] \<or> (\<exists>x. d = [x])" using take_1_cases by auto
  show ?case
  proof (cases "d = [0x1B] \<or> d = [0x25] \<or> d = [0x3B] \<or> d = [0x3F]")
    case True
    then show ?thesis using Suc.prems Suc.IH d
      by (auto simp add: Let_def split: prod.splits if_splits)
  next
    case False
    with dc have "0x25 \<notin> set d" "0x3B \<notin> set d" by auto
    then have "no_padding (tracks[track_slot t tracks := tracks ! track_slot t tracks @ d])"
      using Suc.prems(2) by (intro no_padding_update)
    then show ?thesis using Suc.prems(1) Suc.IH d False
      by (auto simp add: Let_def split: prod.splits if_splits)
  qed
qed

lemma read_loop_no_padding:
  "read_loop n tracks p = Some (Inr tracks', p') \<Longrightarrow> no_padding tracks \<Longrightarrow> no_padding tracks'"
proof (induction n arbitrary: tracks p)
  case 0
  then show ?case by simp
next
  case (Suc n)
  show ?case using Suc.prems Suc.IH read_track_no_padding [where n = n]
    by (auto simp add: Let_def split: prod.splits if_splits sum.splits option.splits)
qed

lemma scenario_7:
  "MSRX_read 7 False \<lparr>incoming = reply_ABC_XY, written = []\<rparr> =
     Some (Inr [[0x41, 0x42, 0x43], [], [0x58, 0x59]], \<lparr>incoming = [], written = [[0x1B, 0x72]]\<rparr>)"
  by code_simp

lemma MSRX_read_no_padding:
  "MSRX_read n raw p = Some (Inr tracks, p') \<Longrightarrow> no_padding tracks"
  using read_loop_no_padding [of n "replicate TRACK_CNT []" _ tracks p']
  by (auto simp add: MSRX_read_def Let_def no_padding_def split: prod.splits sum.splits)

text \<open>
  Claim C5: on the reply \<open>reply_ABC_XY\<close>, with any fuel from 7 on, \<open>read()\<close> returns the
  track buffers \<open>ABC\<close>, empty and \<open>XY\<close>, and has consumed the whole reply, terminator
  and status included. On any reply at all, the track buffers that \<open>read()\<close> returns hold
  neither \<open>%\<close> nor \<open>;\<close>.
\<close>

theorem MSRX_read_scenario:
  "MSRX_read (7 + k) False \<lparr>incoming = reply_ABC_XY, written = []\<rparr> =
     Some (Inr [[0x41, 0x42, 0x43], [], [0x58, 0x59]],
           \<lparr>incoming = [], written = [[0x1B, 0x72]]\<rparr>) \<and>
   (\<forall>n raw p tracks p'. MSRX_read n raw p = Some (Inr tracks, p') \<longrightarrow> no_padding tracks)"
  using MSRX_read_mono [OF scenario_7, of k] MSRX_read_no_padding by blast

text \<open>The scenario with fuel 7, and its buffers free of padding.\<close>

theorem MSRX_read_scenario_witness:
  "MSRX_read 7 False \<lparr>incoming = reply_ABC_XY, written = []\<rparr> =
     Some (Inr [[0x41, 0x42, 0x43], [], [0x58, 0x59]],
           \<lparr>incoming = [], written = [[0x1B, 0x72]]\<rparr>) \<and>
   no_padding [[0x41, 0x42, 0x43], [], [0x58, 0x59]]"
proof -
  have run: "MSRX_read 7 False \<lparr>incoming = reply_ABC_XY, written = []\<rparr> =
     Some (Inr [[0x41, 0x42, 0x43], [], [0x58, 0x59]],
           \<lparr>incoming = [], written = [[0x1B, 0x72]]\<rparr>)"
    using MSRX_read_scenario [of 0] by simp
  moreover have "no_padding [[0x41, 0x42, 0x43], [], [0x58, 0x59]]"
    using MSRX_read_scenario [of 0] run by blast
  ultimately show ?thesis by simp
qed

section \<open>Properties of the density codec\<close>

subsection \<open>The steps of the encoder loop\<close>

declare enc_loop.simps [simp del]

lemma mask_as_take_bit: "(x::int) AND (2 ^ n - 1) = take_bit n x"
  by (simp add: take_bit_eq_mask mask_eq_exp_minus_1)

lemma mask_push: "(x::int) AND (push_bit n 1 - 1) = take_bit n x"
  by (simp add: mask_as_take_bit)

lemma enc_loop_stay:
  assumes "atbit + bits \<le> 7"
  shows "enc_loop low bits atbit whole data =
     (let part = take_bit bits (drop_bit atbit whole) in
      if part = 0 then Inr []
      else (case to_uni (group_char low bits part) of
              Inl e \<Rightarrow> Inl e
            | Inr c \<Rightarrow> (case enc_loop low bits (atbit + bits) whole data of
                          Inl e \<Rightarrow> Inl e | Inr cs \<Rightarrow> Inr (c # cs))))"
  using assms by (subst enc_loop.simps) (simp add: Let_def mask_as_take_bit group_char_def)

lemma enc_loop_stop:
  assumes "7 < atbit + bits"
  shows "enc_loop low bits atbit whole [] = Inr []"
  using assms by (subst enc_loop.simps) (simp add: Let_def)

lemma enc_loop_fetch:
  assumes "7 < atbit + bits" "\<not> bits < (atbit + bits) mod 8"
  shows "enc_loop low bits atbit whole (d # data) =
     (let atbit' = (atbit + bits) mod 8;
          part = take_bit bits (drop_bit atbit whole) OR
                   push_bit (bits - atbit') (take_bit atbit' (uint d)) in
      if part = 0 then Inr []
      else (case to_uni (group_char low bits part) of
              Inl e \<Rightarrow> Inl e
            | Inr c \<Rightarrow> (case enc_loop low bits atbit' (uint d) data of
                          Inl e \<Rightarrow> Inl e | Inr cs \<Rightarrow> Inr (c # cs))))"
  using assms by (subst enc_loop.simps) (simp add: Let_def mask_as_take_bit group_char_def)

lemma to_uni_char:
  assumes "0 \<le> low" "low + 2 ^ (bits - 1) \<le> 0x110000"
  shows "to_uni (group_char low bits part) = Inr (group_char low bits part)"
proof -
  define t where "t = take_bit (bits - 1) part"
  have "0 \<le> t" "t < 2 ^ (bits - 1)" by (simp_all add: t_def)
  with assms have "to_uni (t + low) = Inr (t + low)" by (simp add: to_uni_def)
  then show ?thesis by (simp only: t_def group_char_def)
qed

lemma shift_count_ok:
  fixes atbit bits :: nat
  assumes "atbit \<le> 7" "7 < atbit + bits"
  shows "\<not> bits < (atbit + bits) mod 8"
  using assms by presburger

lemma enc_loop_total:
  assumes "0 \<le> low" "low + 2 ^ (bits - 1) \<le> 0x110000"
  shows "atbit \<le> 7 \<Longrightarrow> \<exists>s. enc_loop low bits atbit whole data = Inr s"
proof (induction "length data * 9 + (8 - atbit)" arbitrary: atbit whole data rule: less_induct)
  case less
  note uni = to_uni_char [OF assms]
  show ?case
  proof (cases "7 < atbit + bits")
    case False
    then have le: "atbit + bits \<le> 7" by simp
    show ?thesis
    proof (cases "take_bit bits (drop_bit atbit whole) = 0")
      case True
      then show ?thesis by (simp add: enc_loop_stay [OF le])
    next
      case nz: False
      then have "bits \<noteq> 0" by (auto intro: ccontr)
      with le have "length data * 9 + (8 - (atbit + bits)) < length data * 9 + (8 - atbit)"
        by simp
      from less.hyps [OF this] le
      obtain s where "enc_loop low bits (atbit + bits) whole data = Inr s"
        by auto
      with nz show ?thesis by (simp add: enc_loop_stay [OF le] uni)
    qed
  next
    case True
    show ?thesis
    proof (cases data)
      case Nil
      then show ?thesis by (simp add: enc_loop_stop [OF True])
    next
      case (Cons d data')
      have "length data' * 9 + (8 - (atbit + bits) mod 8) < length data * 9 + (8 - atbit)"
        using Cons by simp
      moreover have "(atbit + bits) mod 8 \<le> 7" by simp
      ultimately obtain s where
        "enc_loop low bits ((atbit + bits) mod 8) (uint d) data' = Inr s"
        using less.hyps [of data' "(atbit + bits) mod 8" "uint d"] by blast
      then show ?thesis using Cons
        by (simp add: enc_loop_fetch [OF True shift_count_ok [OF less.prems True]] Let_def uni)
    qed
  qed
qed

lemma enc_total:
  assumes "0 \<le> low" "low + 2 ^ (bits - 1) \<le> 0x110000"
  shows "\<exists>s. enc data low bits = Inr s"
  using enc_loop_total [OF assms, of 0] by (cases data) (simp_all add: enc_def)

subsection \<open>The steps of the decoder loop\<close>

lemma and_255: "(x::int) AND 255 = take_bit 8 x"
proof -
  have "(255::int) = mask 8" by (simp add: mask_eq_exp_minus_1)
  then show ?thesis by (simp only: take_bit_eq_mask)
qed

lemma and_1_take_bit: "(x::int) AND 1 = take_bit 1 x"
  by (simp add: and_one_eq take_bit_eq_mod)

lemma dec_group_bounds:
  assumes "0 < bits"
  shows "0 \<le> dec_group low bits d" "dec_group low bits d < 2 ^ bits"
proof -
  let ?p = "take_bit (bits - 1) (d - low)"
  let ?q = "NOT (((?p * 0x0101010101010101) AND 0x8040201008040201) mod 0x1FF)"
  have eq: "dec_group low bits d = concat_bit (bits - 1) ?p (take_bit 1 ?q)"
    by (simp add: dec_group_def Let_def concat_bit_def and_1_take_bit)
  have "take_bit bits (dec_group low bits d) = dec_group low bits d"
    unfolding eq using assms
    by (intro bit_eqI) (auto simp add: bit_simps)
  then have "0 \<le> dec_group low bits d \<and> dec_group low bits d < 2 ^ bits"
    by (metis take_bit_int_less_exp take_bit_nonnegative)
  then show "0 \<le> dec_group low bits d" "dec_group low bits d < 2 ^ bits" by simp_all
qed

lemma dec_loop_Cons:
  assumes "0 < bits"
  shows "dec_loop low bits atbit whole (d # data) =
     (let part = dec_group low bits d;
          whole1 = whole OR take_bit 8 (push_bit atbit part)
      in if 7 < atbit + bits then
           (case to_byte whole1 of
              Inl e \<Rightarrow> Inl e
            | Inr b \<Rightarrow>
                (if bits < (atbit + bits) mod 8 then Inl ValueError
                 else case dec_loop low bits ((atbit + bits) mod 8)
                             (drop_bit (bits - (atbit + bits) mod 8) part) data of
                        Inl e \<Rightarrow> Inl e
                      | Inr bs \<Rightarrow> Inr (b # bs)))
         else dec_loop low bits (atbit + bits) whole1 data)"
  unfolding dec_loop.simps Let_def dec_group_def mask_push and_255 using assms by simp

subsection \<open>Bit streams as numbers\<close>

lemma pack_simps [simp]: "pack bits [] = 0" "pack bits (g # gs) = concat_bit bits g (pack bits gs)"
  by (simp_all add: pack_def)

lemma stream_value_Nil [simp]: "stream_value [] = 0"
  by (simp add: stream_value_def)

lemma stream_value_Cons: "stream_value (w # data) = concat_bit 8 (uint w) (stream_value data)"
proof -
  have "take_bit 8 (uint w) = uint w" by (simp add: take_bit_int_eq_self_iff uint_lt2p [where 'a = 8, simplified])
  then show ?thesis
    by (simp add: stream_value_def concat_bit_eq push_bit_eq_mult)
qed

lemma bit_uint_byte: "bit (uint (w :: byte)) m \<Longrightarrow> m < 8"
  by (auto simp add: bit_uint_iff dest: bit_imp_le_length)

lemma concat_take: "concat_bit n (take_bit n k) l = concat_bit n k l"
  by (simp add: concat_bit_def)

lemma concat_drop: "concat_bit n k (concat_bit m (drop_bit n k) r) = concat_bit (n + m) k r"
proof (rule bit_eqI)
  fix i
  consider "i < n" | "n \<le> i" "i < n + m" | "n + m \<le> i" by linarith
  then show "bit (concat_bit n k (concat_bit m (drop_bit n k) r)) i = bit (concat_bit (n + m) k r) i"
  proof cases
    case 1
    then show ?thesis by (simp add: bit_simps)
  next
    case 2
    then have "i - n < m" "i - n + n = i" by simp_all
    with 2 show ?thesis by (simp add: bit_simps)
  next
    case 3
    then have "\<not> i < n" "\<not> i - n < m" "i - n - m = i - (n + m)" by simp_all
    with 3 show ?thesis by (simp add: bit_simps)
  qed
qed

lemma concat_inner_take:
  "concat_bit (a + b) (concat_bit a w (take_bit b g)) P = concat_bit (a + b) (concat_bit a w g) P"
proof -
  have "take_bit (a + b) (concat_bit a w (take_bit b g)) = take_bit (a + b) (concat_bit a w g)"
    by (rule bit_eqI) (auto simp add: bit_simps)
  then show ?thesis by (simp add: concat_bit_def)
qed

lemma dec_emit_byte:
  assumes "atbit \<le> 8"
  shows "take_bit atbit whole OR take_bit 8 (push_bit atbit g) = take_bit 8 (concat_bit atbit whole g)"
  using assms by (intro bit_eqI) (auto simp add: bit_simps)

lemma dec_keep:
  assumes "atbit + bits \<le> 8"
  shows "take_bit atbit whole OR take_bit 8 (push_bit atbit (take_bit bits g))
      = concat_bit atbit whole (take_bit bits g)"
  using assms by (intro bit_eqI) (auto simp add: bit_simps)

lemma dec_carry:
  assumes "atbit \<le> 8"
  shows "drop_bit (8 - atbit) g = drop_bit 8 (concat_bit atbit whole g)"
  using assms by (intro bit_eqI) (auto simp add: bit_simps)

lemma dec_value_step:
  assumes "atbit + bits = 8 + a'"
  shows "concat_bit 8 (take_bit 8 (concat_bit atbit whole (take_bit bits g)))
           (concat_bit a' (drop_bit 8 (concat_bit atbit whole (take_bit bits g))) P)
       = concat_bit atbit whole (concat_bit bits g P)"
proof -
  let ?X = "concat_bit atbit whole (take_bit bits g)"
  have "concat_bit 8 (take_bit 8 ?X) (concat_bit a' (drop_bit 8 ?X) P)
      = concat_bit (8 + a') ?X P"
    by (simp only: concat_take concat_drop)
  also have "\<dots> = concat_bit (atbit + bits) (concat_bit atbit whole g) P"
    by (simp only: assms [symmetric] concat_inner_take)
  also have "\<dots> = concat_bit atbit whole (concat_bit bits g P)"
    by (simp only: concat_bit_assoc add.commute)
  finally show ?thesis .
qed

lemma dec_group_take: "0 < bits \<Longrightarrow> take_bit bits (dec_group low bits d) = dec_group low bits d"
  using dec_group_bounds [of bits low d] by (simp add: take_bit_int_eq_self)

lemma to_byte_take_bit: "to_byte (take_bit 8 x) = Inr (word_of_int (take_bit 8 x))"
proof -
  define y where "y = take_bit 8 x"
  have "0 \<le> y" unfolding y_def by simp
  moreover have "y < 2 ^ 8" unfolding y_def by (rule take_bit_int_less_exp)
  ultimately have "to_byte y = Inr (word_of_int y)" by (simp add: to_byte_def)
  then show ?thesis by (simp only: y_def)
qed

lemma uint_byte_take_bit: "uint (word_of_int (take_bit 8 x) :: byte) = take_bit 8 x"
  by (simp add: uint_word_of_int_eq)

lemma take_bit_mono_le:
  assumes "take_bit a (x::int) = x" "a \<le> b"
  shows "take_bit b x = x"
proof -
  have "take_bit b (take_bit a x) = take_bit a x" using assms(2) by (simp add: min_def)
  then show ?thesis by (simp only: assms(1))
qed

lemma concat_take_bit_total:
  "take_bit (a + b) (concat_bit a w (take_bit b g)) = concat_bit a w (take_bit b g)"
  by (rule bit_eqI) (auto simp add: bit_simps)


declare dec_loop.simps [simp del]

lemma dec_loop_Nil:
  "dec_loop low bits atbit whole [] =
     (if atbit > 0 then (case to_byte whole of Inl e \<Rightarrow> Inl e | Inr b \<Rightarrow> Inr [b]) else Inr [])"
  by (simp add: dec_loop.simps)

lemma dec_loop_keep:
  assumes "0 < bits" "atbit + bits \<le> 7" "take_bit atbit whole = whole"
  shows "dec_loop low bits atbit whole (d # data) =
    dec_loop low bits (atbit + bits) (concat_bit atbit whole (dec_group low bits d)) data"
proof -
  define g where "g = dec_group low bits d"
  have g: "take_bit bits g = g" unfolding g_def by (rule dec_group_take [OF assms(1)])
  have "take_bit atbit whole OR take_bit 8 (push_bit atbit (take_bit bits g))
      = concat_bit atbit whole (take_bit bits g)"
    using assms(2) by (intro dec_keep) simp
  then have w1: "whole OR take_bit 8 (push_bit atbit g) = concat_bit atbit whole g"
    by (simp only: g assms(3))
  have "\<not> 7 < atbit + bits" using assms(2) by simp
  then show ?thesis
    unfolding dec_loop_Cons [OF assms(1)] Let_def g_def [symmetric] w1 by simp
qed

lemma dec_loop_emit:
  assumes "0 < bits" "bits \<le> 8" "atbit \<le> 7" "7 < atbit + bits" "take_bit atbit whole = whole"
  shows "dec_loop low bits atbit whole (d # data) =
    (case dec_loop low bits (atbit + bits - 8)
            (drop_bit 8 (concat_bit atbit whole (dec_group low bits d))) data of
       Inl e \<Rightarrow> Inl e
     | Inr bs \<Rightarrow> Inr (word_of_int (take_bit 8 (concat_bit atbit whole (dec_group low bits d))) # bs))"
proof -
  define g where "g = dec_group low bits d"
  define W where "W = concat_bit atbit whole g"
  have "take_bit atbit whole OR take_bit 8 (push_bit atbit g) = take_bit 8 W"
    unfolding W_def using assms(3) by (intro dec_emit_byte) simp
  then have w1: "whole OR take_bit 8 (push_bit atbit g) = take_bit 8 W"
    by (simp only: assms(5))
  have m: "(atbit + bits) mod 8 = atbit + bits - 8"
    using assms(2,3,4) by (simp add: mod_if)
  have sh: "bits - (atbit + bits - 8) = 8 - atbit" using assms(3,4) by simp
  have carry: "drop_bit (8 - atbit) g = drop_bit 8 W"
    unfolding W_def using assms(3) by (intro dec_carry) simp
  have nlt: "\<not> bits < atbit + bits - 8" using assms(3) by simp
  show ?thesis
    unfolding dec_loop_Cons [OF assms(1)] Let_def g_def [symmetric] w1 m sh carry
      to_byte_take_bit W_def [symmetric]
    using assms(4) nlt by simp
qed

subsection \<open>What the decoder writes\<close>

text \<open>
  Started with \<open>atbit\<close> pending bits \<open>whole\<close>, the decoder writes the bytes of the number
  made of these bits and, above them, the groups of the characters; a last partial byte
  is written out.
\<close>

lemma dec_loop_value:
  assumes bits: "0 < bits" "bits \<le> 8"
  shows "atbit \<le> 7 \<Longrightarrow> take_bit atbit whole = whole \<Longrightarrow>
    \<exists>bs. dec_loop low bits atbit whole data = Inr bs \<and>
      stream_value bs = concat_bit atbit whole (pack bits (map (dec_group low bits) data)) \<and>
      length bs = (atbit + bits * length data + 7) div 8"
proof (induction data arbitrary: atbit whole)
  case Nil
  show ?case
  proof (cases "atbit = 0")
    case True
    with Nil show ?thesis by (simp add: dec_loop_Nil)
  next
    case False
    have w8: "take_bit 8 whole = whole"
      by (rule take_bit_mono_le [OF Nil(2)]) (use Nil(1) in simp)
    have tb: "to_byte whole = Inr (word_of_int whole)" using to_byte_take_bit [of whole] w8 by simp
    have ui: "uint (word_of_int whole :: byte) = whole"
      using uint_byte_take_bit [of whole] w8 by simp
    have len: "(atbit + 7) div 8 = 1" using False Nil by simp
    have "stream_value [word_of_int whole :: byte] = whole"
      by (simp add: stream_value_Cons ui concat_bit_def w8)
    moreover have "concat_bit atbit whole 0 = whole" using Nil by (simp add: concat_bit_def)
    ultimately show ?thesis using False len by (simp add: dec_loop_Nil tb)
  qed
next
  case (Cons d data)
  define g where "g = dec_group low bits d"
  define P where "P = pack bits (map (dec_group low bits) data)"
  define W where "W = concat_bit atbit whole g"
  have g: "take_bit bits g = g" unfolding g_def by (rule dec_group_take [OF bits(1)])
  have Wt: "take_bit (atbit + bits) W = W"
    using concat_take_bit_total [of atbit bits whole g] by (simp only: g W_def)
  have target: "concat_bit atbit whole (pack bits (map (dec_group low bits) (d # data)))
      = concat_bit atbit whole (concat_bit bits g P)"
    by (simp add: g_def P_def)
  show ?case
  proof (cases "7 < atbit + bits")
    case False
    then have le: "atbit + bits \<le> 7" by simp
    from Cons.IH [OF le Wt] obtain bs where
      bs: "dec_loop low bits (atbit + bits) W data = Inr bs"
        "stream_value bs = concat_bit (atbit + bits) W P"
        "length bs = (atbit + bits + bits * length data + 7) div 8"
      unfolding P_def by blast
    have "concat_bit (atbit + bits) W P = concat_bit atbit whole (concat_bit bits g P)"
      unfolding W_def by (simp only: concat_bit_assoc add.commute)
    with bs(2) have v: "stream_value bs = concat_bit atbit whole (concat_bit bits g P)" by simp
    have l: "length bs = (atbit + bits * length (d # data) + 7) div 8"
      using bs(3) by (simp add: add.assoc)
    have "dec_loop low bits atbit whole (d # data) = Inr bs"
      using dec_loop_keep [OF bits(1) le Cons.prems(2), of low d data] bs(1)
      by (simp only: g_def [symmetric] W_def [symmetric])
    with v l target show ?thesis by simp
  next
    case True
    define a' where "a' = atbit + bits - 8"
    have a': "atbit + bits = 8 + a'" "a' \<le> 7"
      using True Cons.prems(1) bits(2) by (simp_all add: a'_def)
    have inv: "take_bit a' (drop_bit 8 W) = drop_bit 8 W"
    proof -
      have "drop_bit 8 (take_bit (8 + a') W) = take_bit a' (drop_bit 8 W)"
        by (simp add: drop_bit_take_bit)
      then show ?thesis using Wt a'(1) by simp
    qed
    from Cons.IH [OF a'(2) inv] obtain bs where
      bs: "dec_loop low bits a' (drop_bit 8 W) data = Inr bs"
        "stream_value bs = concat_bit a' (drop_bit 8 W) P"
        "length bs = (a' + bits * length data + 7) div 8"
      unfolding P_def by blast
    have val: "concat_bit 8 (take_bit 8 W) (concat_bit a' (drop_bit 8 W) P)
        = concat_bit atbit whole (concat_bit bits g P)"
      using dec_value_step [OF a'(1), of whole g P] by (simp only: g W_def)
    have l: "Suc (length bs) = (atbit + bits * length (d # data) + 7) div 8"
    proof -
      have "atbit + bits * length (d # data) + 7 = 8 + (a' + bits * length data + 7)"
        using a'(1) by simp
      then show ?thesis using bs(3) by simp
    qed
    have run: "dec_loop low bits atbit whole (d # data) = Inr (word_of_int (take_bit 8 W) # bs)"
      using dec_loop_emit [OF bits Cons.prems(1) True Cons.prems(2), of low d data] bs(1)
      by (simp only: g_def [symmetric] W_def [symmetric] a'_def [symmetric]) simp
    have "stream_value (word_of_int (take_bit 8 W) # bs)
        = concat_bit 8 (take_bit 8 W) (concat_bit a' (drop_bit 8 W) P)"
      by (simp only: stream_value_Cons uint_byte_take_bit bs(2))
    with val have v: "stream_value (word_of_int (take_bit 8 W) # bs)
        = concat_bit atbit whole (concat_bit bits g P)" by simp
    from run v l target show ?thesis by simp
  qed
qed

lemma dec_value:
  assumes "0 < bits" "bits \<le> 8"
  shows "\<exists>bs. dec data low bits = Inr bs \<and>
      stream_value bs = pack bits (map (dec_group low bits) data) \<and>
      length bs = (bits * length data + 7) div 8"
  using dec_loop_value [OF assms, of 0 0 low data] by (simp add: dec_def)

subsection \<open>What the encoder reads\<close>

lemma groups_from_end:
  assumes "0 < bits" "\<not> a + bits < L"
  shows "groups_from bits N L a = []"
proof -
  have "L - a - 1 < bits" using assms by linarith
  then have "(L - a - 1) div bits = 0" by simp
  then show ?thesis by (simp add: groups_from_def)
qed

lemma groups_from_step:
  assumes "0 < bits" "a + bits < L"
  shows "groups_from bits N L a = take_bit bits (drop_bit a N) # groups_from bits N L (a + bits)"
proof -
  have "bits \<le> L - a - 1" using assms by linarith
  then have "(L - a - 1) div bits = Suc ((L - a - 1 - bits) div bits)"
    using assms(1) by (simp add: le_div_geq)
  moreover have "L - a - 1 - bits = L - (a + bits) - 1" by simp
  ultimately have cnt: "(L - a - 1) div bits = Suc ((L - (a + bits) - 1) div bits)" by simp
  show ?thesis
    unfolding groups_from_def cnt map_upt_Suc by (simp add: add.assoc)
qed

lemma groups_from_shift:
  "groups_from bits (concat_bit 8 x M) (L + 8) (a + 8) = groups_from bits M L a"
proof -
  have "drop_bit (a + 8 + bits * k) (concat_bit 8 x M) = drop_bit (a + bits * k) M" for k
  proof -
    have "a + 8 + bits * k = a + bits * k + 8" by simp
    then have "drop_bit (a + 8 + bits * k) (concat_bit 8 x M)
        = drop_bit (a + bits * k) (drop_bit 8 (concat_bit 8 x M))"
      by (simp only: drop_bit_drop_bit)
    also have "drop_bit 8 (concat_bit 8 x M) = M"
      by (rule bit_eqI) (simp add: bit_simps)
    finally show ?thesis .
  qed
  then show ?thesis by (simp add: groups_from_def)
qed

lemma enc_stay_group:
  assumes "a + bits \<le> 8"
  shows "take_bit bits (drop_bit a (uint (w::byte)))
       = take_bit bits (drop_bit a (concat_bit 8 (uint w) M))"
proof (rule bit_eqI)
  fix i
  show "bit (take_bit bits (drop_bit a (uint w))) i
      = bit (take_bit bits (drop_bit a (concat_bit 8 (uint w) M))) i"
  proof (cases "i < bits")
    case True
    then have "a + i < 8" using assms by simp
    with True show ?thesis by (simp add: bit_simps add.commute)
  next
    case False
    then show ?thesis by (simp add: bit_simps)
  qed
qed

lemma enc_fetch_group:
  assumes "a \<le> 7" "bits \<le> 8" "7 < a + bits"
  shows "take_bit bits (drop_bit a (uint (w::byte))) OR
           push_bit (8 - a) (take_bit (a + bits - 8) (uint (d::byte)))
       = take_bit bits (drop_bit a (concat_bit 8 (uint w) (concat_bit 8 (uint d) M)))"
proof (rule bit_eqI)
  fix i
  let ?L = "take_bit bits (drop_bit a (uint w)) OR
           push_bit (8 - a) (take_bit (a + bits - 8) (uint d))"
  let ?R = "take_bit bits (drop_bit a (concat_bit 8 (uint w) (concat_bit 8 (uint d) M)))"
  consider "bits \<le> i" | "i < bits" "a + i < 8" | "i < bits" "8 \<le> a + i" by linarith
  then show "bit ?L i = bit ?R i"
  proof cases
    case 1
    then have "\<not> i < bits" "\<not> (i - (8 - a) < a + bits - 8 \<and> 8 - a \<le> i)" using assms by auto
    then show ?thesis by (auto simp add: bit_simps)
  next
    case 2
    then have "\<not> 8 - a \<le> i" by simp
    with 2 show ?thesis by (simp add: bit_simps add.commute)
  next
    case 3
    then have i: "8 - a \<le> i" "i - (8 - a) < a + bits - 8" "i - (8 - a) = a + i - 8"
      "a + i - 8 < 8" "\<not> a + i < 8"
      using assms by simp_all
    have "\<not> bit (uint w) (a + i)" using bit_uint_byte [of w "a + i"] 3(2) by auto
    with 3 i show ?thesis by (simp add: bit_simps add.commute)
  qed
qed

lemma enc_loop_groups:
  assumes bits: "0 < bits" "bits \<le> 8" and low: "0 \<le> low" "low + 2 ^ (bits - 1) \<le> 0x110000"
  shows "atbit \<le> 7 \<Longrightarrow>
    enc_loop low bits atbit (uint w) data =
      Inr (map (group_char low bits) (takeWhile (\<lambda>g. g \<noteq> 0)
        (groups_from bits (stream_value (w # data)) (8 * length (w # data)) atbit)))"
proof (induction "length data * 9 + (8 - atbit)" arbitrary: atbit w data rule: less_induct)
  case less
  note uni = to_uni_char [OF low]
  let ?N = "stream_value (w # data)"
  let ?L = "8 * length (w # data)"
  show ?case
  proof (cases "7 < atbit + bits")
    case False
    then have le: "atbit + bits \<le> 7" by simp
    define g where "g = take_bit bits (drop_bit atbit (uint w))"
    have g: "take_bit bits (drop_bit atbit ?N) = g"
      unfolding g_def stream_value_Cons using le by (intro enc_stay_group [symmetric]) simp
    have "atbit + bits < ?L" using le by simp
    then have G: "groups_from bits ?N ?L atbit = g # groups_from bits ?N ?L (atbit + bits)"
      using groups_from_step [OF bits(1), of atbit ?L ?N] g by simp
    show ?thesis
    proof (cases "g = 0")
      case True
      then show ?thesis unfolding G enc_loop_stay [OF le] g_def [symmetric] by simp
    next
      case nz: False
      have "length data * 9 + (8 - (atbit + bits)) < length data * 9 + (8 - atbit)"
        using le bits(1) by simp
      from less.hyps [OF this] le
      have "enc_loop low bits (atbit + bits) (uint w) data =
          Inr (map (group_char low bits) (takeWhile (\<lambda>g. g \<noteq> 0)
            (groups_from bits ?N ?L (atbit + bits))))" by simp
      with nz show ?thesis unfolding G enc_loop_stay [OF le] g_def [symmetric]
        by (simp add: uni)
    qed
  next
    case True
    show ?thesis
    proof (cases data)
      case Nil
      have "\<not> atbit + bits < 8" using True by simp
      then have "groups_from bits ?N 8 atbit = []" by (rule groups_from_end [OF bits(1)])
      then show ?thesis using Nil by (simp add: enc_loop_stop [OF True])
    next
      case (Cons d data')
      define a' where "a' = atbit + bits - 8"
      have a': "(atbit + bits) mod 8 = a'" "bits - a' = 8 - atbit" "a' \<le> 7" "atbit + bits = a' + 8"
        using True less.prems bits(2) by (simp_all add: a'_def mod_if)
      define g where "g = take_bit bits (drop_bit atbit (uint w)) OR
          push_bit (8 - atbit) (take_bit a' (uint d))"
      let ?N' = "stream_value (d # data')"
      have N: "?N = concat_bit 8 (uint w) ?N'" using Cons by (simp only: stream_value_Cons)
      have g: "take_bit bits (drop_bit atbit ?N) = g"
        unfolding g_def a'_def N stream_value_Cons [of d]
        by (rule enc_fetch_group [symmetric, OF less.prems bits(2) True])
      have L: "?L = 8 * length (d # data') + 8" using Cons by simp
      have "atbit + bits < ?L" using less.prems bits(2) Cons by simp
      then have "groups_from bits ?N ?L atbit = g # groups_from bits ?N ?L (atbit + bits)"
        using groups_from_step [OF bits(1), of atbit ?L ?N] g by simp
      also have "groups_from bits ?N ?L (atbit + bits)
          = groups_from bits ?N' (8 * length (d # data')) a'"
        unfolding N L a'(4) by (rule groups_from_shift)
      finally have G: "groups_from bits ?N ?L atbit
          = g # groups_from bits ?N' (8 * length (d # data')) a'" .
      have step: "enc_loop low bits atbit (uint w) data =
          (if g = 0 then Inr []
           else (case to_uni (group_char low bits g) of
                   Inl e \<Rightarrow> Inl e
                 | Inr c \<Rightarrow> (case enc_loop low bits a' (uint d) data' of
                               Inl e \<Rightarrow> Inl e | Inr cs \<Rightarrow> Inr (c # cs))))"
        unfolding Cons enc_loop_fetch [OF True shift_count_ok [OF less.prems True]] Let_def
          a'(1) a'(2) g_def [symmetric] ..
      show ?thesis
      proof (cases "g = 0")
        case True
        then show ?thesis unfolding G step by simp
      next
        case nz: False
        have "length data' * 9 + (8 - a') < length data * 9 + (8 - atbit)"
          using Cons by simp
        from less.hyps [OF this a'(3)]
        have "enc_loop low bits a' (uint d) data' =
            Inr (map (group_char low bits) (takeWhile (\<lambda>g. g \<noteq> 0)
              (groups_from bits ?N' (8 * length (d # data')) a')))" .
        with nz show ?thesis unfolding G step by (simp add: uni)
      qed
    qed
  qed
qed

text \<open>
  The encoder emits the groups that end before the last bit of the input, up to the first
  zero group.
\<close>

lemma enc_groups:
  assumes "0 < bits" "bits \<le> 8" "0 \<le> low" "low + 2 ^ (bits - 1) \<le> 0x110000"
  shows "enc data low bits =
    Inr (map (group_char low bits) (takeWhile (\<lambda>g. g \<noteq> 0)
      (groups_from bits (stream_value data) (8 * length data) 0)))"
proof (cases data)
  case Nil
  then show ?thesis by (simp add: enc_def groups_from_def)
next
  case (Cons w data')
  show ?thesis
    unfolding Cons using enc_loop_groups [OF assms, of 0 w data']
    by (simp add: enc_def)
qed

lemma groups_from_0:
  "groups_from bits N L 0 = map (\<lambda>k. take_bit bits (drop_bit (bits * k) N)) [0..<(L - 1) div bits]"
  by (simp add: groups_from_def)

lemma groups_as_map:
  "groups bits data
    = map (\<lambda>k. take_bit bits (drop_bit (bits * k) (stream_value data))) [0..<8 * length data div bits]"
  by (simp add: groups_def group_count_def group_at_def [abs_def])

lemma div_pred_unaligned:
  fixes L bits :: nat
  assumes "L mod bits \<noteq> 0"
  shows "(L - 1) div bits = L div bits"
proof (cases "bits = 0")
  case True
  then show ?thesis by simp
next
  case False
  then have bits: "0 < bits" by simp
  have r: "0 < L mod bits" "L mod bits < bits" using assms bits by simp_all
  have "L - 1 = (L mod bits - 1) + (L div bits) * bits"
    using r(1) mult_div_mod_eq [of bits L] by (simp add: mult.commute)
  then have "(L - 1) div bits = (L mod bits - 1) div bits + L div bits"
    using bits by (simp only: div_mult_self3) simp
  moreover have "(L mod bits - 1) div bits = 0" using r by simp
  ultimately show ?thesis by simp
qed

lemma div_pred_aligned:
  fixes L bits :: nat
  assumes "0 < bits" "0 < L" "L mod bits = 0"
  shows "L div bits = Suc ((L - 1) div bits)"
proof -
  define q where "q = L div bits"
  define r where "r = bits - 1"
  have q: "L = q * bits" unfolding q_def using div_mult_mod_eq [of L bits] assms(3) by simp
  with assms(2) have q0: "0 < q" by (cases q) auto
  have r: "r < bits" "bits = Suc r" using assms(1) by (simp_all add: r_def)
  have "L = Suc r + (q - 1) * bits"
    using q q0 r(2) by (cases q) simp_all
  then have "L - 1 = r + (q - 1) * bits" by simp
  moreover have "(r + (q - 1) * bits) div bits = (q - 1) + r div bits"
    using assms(1) by simp
  moreover have "r div bits = 0" using r(1) by simp
  ultimately have "(L - 1) div bits = q - 1" by simp
  then show ?thesis using q0 by (simp add: q_def)
qed

text \<open>
  These are all the complete groups up to the first zero group, unless no group is zero
  and the last one ends on the last bit of the input.
\<close>

lemma takeWhile_complete_groups:
  assumes bits: "0 < bits"
    and h: "data = [] \<or> (8 * length data) mod bits \<noteq> 0 \<or> 0 \<in> set (groups bits data)"
  shows "takeWhile (\<lambda>g. g \<noteq> 0) (groups_from bits (stream_value data) (8 * length data) 0)
    = takeWhile (\<lambda>g. g \<noteq> 0) (groups bits data)"
proof -
  define f where "f = (\<lambda>k. take_bit bits (drop_bit (bits * k) (stream_value data)))"
  define L where "L = 8 * length data"
  have rd: "groups_from bits (stream_value data) (8 * length data) 0 = map f [0..<(L - 1) div bits]"
    unfolding groups_from_0 f_def L_def ..
  have gr: "groups bits data = map f [0..<L div bits]"
    unfolding groups_as_map f_def L_def ..
  show ?thesis
  proof (cases "L = 0 \<or> L mod bits \<noteq> 0")
    case True
    then have "(L - 1) div bits = L div bits" using div_pred_unaligned [of L bits] by auto
    then show ?thesis unfolding rd gr by simp
  next
    case False
    then have al: "0 < L" "L mod bits = 0" by simp_all
    define c where "c = (L - 1) div bits"
    have "L div bits = Suc c" unfolding c_def by (rule div_pred_aligned [OF bits al])
    then have gr': "groups bits data = map f [0..<c] @ [f c]" unfolding gr by simp
    have z: "0 \<in> set (groups bits data)" using h al unfolding L_def by auto
    show ?thesis
    proof (cases "0 \<in> set (map f [0..<c])")
      case True
      then have "takeWhile (\<lambda>g. g \<noteq> 0) (map f [0..<c] @ [f c])
          = takeWhile (\<lambda>g. g \<noteq> 0) (map f [0..<c])"
        by (intro takeWhile_append1 [of 0]) simp_all
      then show ?thesis unfolding rd gr' c_def [symmetric] by simp
    next
      case False
      with z have fc: "f c = 0" unfolding gr' by auto
      have all: "\<forall>g \<in> set (map f [0..<c]). g \<noteq> 0" using False by metis
      have "takeWhile (\<lambda>g. g \<noteq> 0) (map f [0..<c] @ [f c])
          = map f [0..<c] @ takeWhile (\<lambda>g. g \<noteq> 0) [f c]"
        by (rule takeWhile_append2) (use all in blast)
      then have "takeWhile (\<lambda>g. g \<noteq> 0) (map f [0..<c] @ [f c]) = map f [0..<c]"
        by (simp only: fc) simp
      moreover have "takeWhile (\<lambda>g. g \<noteq> 0) (map f [0..<c]) = map f [0..<c]"
        using all by (simp add: takeWhile_eq_all_conv)
      ultimately show ?thesis unfolding rd gr' c_def [symmetric] by simp
    qed
  qed
qed

subsection \<open>The three tracks\<close>

lemma PARAM_MAP_cases:
  assumes "PARAM_MAP track = Some (low, bits)"
  shows "(low = 0x20 \<and> bits = 7) \<or> (low = 0x30 \<and> bits = 5)"
  using assms by (auto simp add: PARAM_MAP_def split: if_splits)

lemma PARAM_MAP_ok:
  assumes "PARAM_MAP track = Some (low, bits)"
  shows "0 < bits" "bits \<le> 8" "0 \<le> low" "low + 2 ^ (bits - 1) \<le> 0x110000"
  using PARAM_MAP_cases [OF assms] by auto

text \<open>
  Claim C6, as the code has it: for each track, \<open>encode\<close> reads the byte stream
  least-significant-bits-first in groups of \<open>bits\<close> bits, emits for each complete group
  its \<open>bits - 1\<close> low bits plus \<open>low\<close>, and stops at the first group that is zero as a
  whole, parity bit included, or after the last complete group. This is stated for an
  input that holds a zero group or whose last complete group does not end on the last bit
  of the input.
\<close>

theorem encode_groups:
  assumes "PARAM_MAP track = Some (low, bits)"
    and "data = [] \<or> (8 * length data) mod bits \<noteq> 0 \<or> 0 \<in> set (groups bits data)"
  shows "encode data track =
    Inr (map (group_char low bits) (takeWhile (\<lambda>g. g \<noteq> 0) (groups bits data)))"
proof -
  note ok = PARAM_MAP_ok [OF assms(1)]
  show ?thesis
    using enc_groups [OF ok, of data] takeWhile_complete_groups [OF ok(1) assms(2)] assms(1)
    by (simp add: encode_def)
qed

lemma sv3: "stream_value [0x21, 0, 0x10] = 0x100021"
  by (simp add: stream_value_def)

text \<open>Track 2 on three bytes: two groups of value 1, then a zero group, where it stops.\<close>

theorem encode_groups_witness:
  "PARAM_MAP 2 = Some (0x30, 5) \<and> groups 5 [0x21, 0, 0x10] = [1, 1, 0, 0] \<and>
   encode [0x21, 0, 0x10] 2 = Inr [0x31, 0x31]"
proof -
  have p: "PARAM_MAP 2 = Some (0x30, 5)" by (simp add: PARAM_MAP_def)
  have g: "groups 5 [0x21, 0, 0x10] = [1, 1, 0, 0]"
    by (simp add: groups_def group_count_def group_at_def sv3 upt_conv_Cons drop_bit_eq_div take_bit_eq_mod)
  have "0 \<in> set (groups 5 [0x21, 0, 0x10])" by (simp add: g)
  then show ?thesis using encode_groups [OF p, of "[0x21, 0, 0x10]"] p g
    by (simp add: group_char_def)
qed

text \<open>
  Claim C6 as stated stops at a group whose data bits are zero: on track 2 the byte 0x10
  is the group 10000, data bits zero under a set parity bit, and it is emitted as \<open>0\<close>.
\<close>

theorem encode_emits_zero_data_group:
  "encode [0x10] 2 = Inr [0x30] \<and> group_at 5 [0x10] 0 = 16 \<and> take_bit 4 (16 :: int) = 0"
proof -
  have p: "PARAM_MAP 2 = Some (0x30, 5)" by (simp add: PARAM_MAP_def)
  have sv: "stream_value [0x10] = 16" by (simp add: stream_value_def)
  have g: "groups_from 5 (stream_value [0x10]) (8 * length [0x10 :: byte]) 0 = [16]"
    by (simp add: groups_from_def sv take_bit_eq_mod)
  have "encode [0x10] 2 = Inr [0x30]"
    using enc_groups [OF PARAM_MAP_ok [OF p], of "[0x10]"] p g
    by (simp add: encode_def group_char_def take_bit_eq_mod)
  moreover have "group_at 5 [0x10] 0 = 16" by (simp add: group_at_def sv take_bit_eq_mod)
  moreover have "take_bit 4 (16 :: int) = 0" by (simp add: take_bit_eq_mod)
  ultimately show ?thesis by simp
qed

lemma dec_loop_masked:
  "dec_loop low bits atbit whole (map (\<lambda>c. low + take_bit (bits - 1) (c - low)) data)
    = dec_loop low bits atbit whole data"
proof (induction data arbitrary: atbit whole)
  case Nil
  show ?case by simp
next
  case (Cons d data)
  have m: "(low + take_bit (bits - 1) (d - low) - low) AND (push_bit (bits - 1) 1 - 1)
      = (d - low) AND (push_bit (bits - 1) 1 - 1)"
    by (simp add: mask_as_take_bit)
  show ?case
    unfolding list.map dec_loop.simps(2) m Cons.IH ..
qed

text \<open>
  Claim C7, as the code has it: for each track, \<open>encode\<close> fails on no byte string and
  \<open>decode\<close> fails on no character string; \<open>decode\<close> reads of a character only
  \<open>(c - low) mod 2^(bits-1)\<close>, so that a character outside the alphabet decodes as the
  character of the alphabet it is congruent to.
\<close>

theorem codec_never_fails:
  assumes "PARAM_MAP track = Some (low, bits)"
  shows "(\<exists>s. encode b track = Inr s) \<and> (\<exists>bs. decode s track = Inr bs) \<and>
    decode (map (\<lambda>c. low + take_bit (bits - 1) (c - low)) s) track = decode s track"
proof -
  note ok = PARAM_MAP_ok [OF assms]
  have "\<exists>s. encode b track = Inr s"
    using enc_total [OF ok(3,4), of b] assms by (simp add: encode_def)
  moreover have "\<exists>bs. decode s track = Inr bs"
    using dec_value [OF ok(1,2), of s low] assms by (auto simp add: decode_def)
  moreover have "decode (map (\<lambda>c. low + take_bit (bits - 1) (c - low)) s) track = decode s track"
    using assms dec_loop_masked [of low bits 0 0 s] by (simp add: decode_def dec_def)
  ultimately show ?thesis by blast
qed

text \<open>
  Claim C7 as stated has \<open>decode\<close> fail on a character outside the alphabet: on track 2
  the character \<open>z\<close> (0x7A) decodes to the byte 0x1A.
\<close>

theorem decode_out_of_range:
  "decode [0x7A] 2 = Inr [0x1A] \<and> \<not> in_alphabet 0x30 5 0x7A"
  by (simp add: decode_def PARAM_MAP_def dec_def dec_loop.simps to_byte_def in_alphabet_def)

text \<open>Track 2: the byte 0x10 encodes, \<open>z\<close> decodes, and it decodes as \<open>:\<close> (0x3A) does.\<close>

theorem codec_never_fails_witness:
  "PARAM_MAP 2 = Some (0x30, 5) \<and> (\<exists>s. encode [0x10] 2 = Inr s) \<and>
   (\<exists>bs. decode [0x7A] 2 = Inr bs) \<and> decode [0x3A] 2 = decode [0x7A] 2"
proof -
  have p: "PARAM_MAP 2 = Some (0x30, 5)" by (simp add: PARAM_MAP_def)
  have "take_bit 4 (0x7A - 0x30 :: int) = 10" by (simp add: take_bit_eq_mod)
  then show ?thesis using codec_never_fails [OF p, of "[0x10]" "[0x7A]"] p by simp
qed

subsection \<open>Decoding, then encoding\<close>

lemma pack_group:
  assumes "\<forall>g \<in> set gs. take_bit bits g = g"
  shows "take_bit bits (drop_bit (bits * k) (pack bits gs)) = (if k < length gs then gs ! k else 0)"
  using assms
proof (induction gs arbitrary: k)
  case Nil
  show ?case by simp
next
  case (Cons g gs)
  have g: "take_bit bits g = g" using Cons.prems by simp
  have rest: "\<forall>g \<in> set gs. take_bit bits g = g" using Cons.prems by simp
  show ?case
  proof (cases k)
    case 0
    have "take_bit bits (concat_bit bits g (pack bits gs)) = take_bit bits g"
      by (rule bit_eqI) (auto simp add: bit_simps)
    with 0 g show ?thesis by simp
  next
    case (Suc k')
    have "bits * Suc k' = bits * k' + bits" by simp
    then have "drop_bit (bits * Suc k') (concat_bit bits g (pack bits gs))
        = drop_bit (bits * k') (drop_bit bits (concat_bit bits g (pack bits gs)))"
      by (simp only: drop_bit_drop_bit)
    also have "drop_bit bits (concat_bit bits g (pack bits gs)) = pack bits gs"
      by (rule bit_eqI) (simp add: bit_simps)
    finally show ?thesis using Cons.IH [OF rest, of k'] Suc by simp
  qed
qed

lemma dec_group_nonzero:
  assumes "0 < bits"
  shows "dec_group low bits d \<noteq> 0"
proof (cases "take_bit (bits - 1) (d - low) = 0")
  case True
  have q: "NOT ((((0::int) * 0x0101010101010101) AND 0x8040201008040201) mod 0x1FF) AND 1 = 1"
    by simp
  have "dec_group low bits d = 0 OR push_bit (bits - 1) 1"
    unfolding dec_group_def Let_def True q ..
  then show ?thesis by simp
next
  case False
  then show ?thesis unfolding dec_group_def Let_def or_eq_0_iff by blast
qed

lemma group_char_dec_group:
  assumes "0 < bits" "in_alphabet low bits c"
  shows "group_char low bits (dec_group low bits c) = c"
proof -
  let ?p = "take_bit (bits - 1) (c - low)"
  have "0 \<le> c - low" "c - low < 2 ^ (bits - 1)" using assms(2) by (simp_all add: in_alphabet_def)
  then have p: "?p = c - low" by (simp add: take_bit_int_eq_self)
  have "take_bit (bits - 1) (dec_group low bits c) = take_bit (bits - 1) ?p"
    unfolding dec_group_def Let_def by (rule bit_eqI) (auto simp add: bit_simps)
  then show ?thesis using p by (simp add: group_char_def)
qed

lemma group_count_decoded:
  fixes bits n :: nat
  assumes "0 < bits" "(bits * n) mod 8 \<noteq> 0"
  shows "n \<le> (8 * ((bits * n + 7) div 8) - 1) div bits"
proof -
  have "bits * n < 8 * ((bits * n + 7) div 8)" using assms(2) by presburger
  then have "bits * n \<le> 8 * ((bits * n + 7) div 8) - 1" by simp
  then have "(bits * n) div bits \<le> (8 * ((bits * n + 7) div 8) - 1) div bits"
    by (rule div_le_mono)
  then show ?thesis using assms(1) by simp
qed

lemma takeWhile_groups_decoded:
  assumes bits: "0 < bits" and n: "(bits * length gs) mod 8 \<noteq> 0"
    and gs: "\<forall>g \<in> set gs. take_bit bits g = g \<and> g \<noteq> 0"
    and bs: "stream_value bs = pack bits gs" "length bs = (bits * length gs + 7) div 8"
  shows "takeWhile (\<lambda>g. g \<noteq> 0) (groups_from bits (stream_value bs) (8 * length bs) 0) = gs"
proof -
  define cnt where "cnt = (8 * length bs - 1) div bits"
  have cnt: "length gs \<le> cnt"
    unfolding cnt_def bs(2) by (rule group_count_decoded [OF bits n])
  have tk: "\<forall>g \<in> set gs. take_bit bits g = g" using gs by simp
  have "groups_from bits (stream_value bs) (8 * length bs) 0
      = map (\<lambda>k. if k < length gs then gs ! k else 0) [0..<cnt]"
    unfolding groups_from_0 cnt_def [symmetric] bs(1) pack_group [OF tk] ..
  also have "\<dots> = gs @ replicate (cnt - length gs) 0"
    using cnt by (intro nth_equalityI) (auto simp add: nth_append)
  finally have "groups_from bits (stream_value bs) (8 * length bs) 0
      = gs @ replicate (cnt - length gs) 0" .
  moreover have "takeWhile (\<lambda>g. g \<noteq> 0) (gs @ replicate m (0::int)) = gs" for m
  proof -
    have "takeWhile (\<lambda>g. g \<noteq> 0) (replicate m (0::int)) = []" by (cases m) simp_all
    then show ?thesis using gs by (simp add: takeWhile_append2)
  qed
  ultimately show ?thesis by simp
qed

text \<open>
  Claim C1, as the code has it: for every track and every character string \<open>s\<close> over the
  track's alphabet whose bit length \<open>bits * len(s)\<close> is not a multiple of 8, the bytes
  \<open>b = decode(s)\<close> are encoded back to \<open>s\<close>, and so \<open>decode(encode(b)) = b\<close>.
\<close>

theorem decode_encode_roundtrip:
  assumes "PARAM_MAP track = Some (low, bits)"
    and "\<forall>c \<in> set s. in_alphabet low bits c"
    and "(bits * length s) mod 8 \<noteq> 0"
  shows "\<exists>b. decode s track = Inr b \<and> encode b track = Inr s \<and> decode_encode b track = Inr b"
proof -
  note ok = PARAM_MAP_ok [OF assms(1)]
  let ?gs = "map (dec_group low bits) s"
  from dec_value [OF ok(1,2), of s low] obtain b where
    b: "dec s low bits = Inr b" "stream_value b = pack bits ?gs"
      "length b = (bits * length s + 7) div 8" by blast
  have gs: "\<forall>g \<in> set ?gs. take_bit bits g = g \<and> g \<noteq> 0"
    using dec_group_take [OF ok(1)] dec_group_nonzero [OF ok(1)] by simp
  have "takeWhile (\<lambda>g. g \<noteq> 0) (groups_from bits (stream_value b) (8 * length b) 0) = ?gs"
    using takeWhile_groups_decoded [OF ok(1) _ gs, of b] assms(3) b(2,3) by simp
  then have "enc b low bits = Inr (map (group_char low bits) ?gs)"
    using enc_groups [OF ok, of b] by simp
  also have "map (group_char low bits) ?gs = s"
    using assms(2) group_char_dec_group [OF ok(1)] by (simp add: map_idI)
  finally have e: "enc b low bits = Inr s" .
  have "decode s track = Inr b" using b(1) assms(1) by (simp add: decode_def)
  moreover have "encode b track = Inr s" using e assms(1) by (simp add: encode_def)
  ultimately show ?thesis by (auto simp add: decode_encode_def)
qed

text \<open>Track 1 and \<open>ABC\<close>, which decodes to the bytes 61 F1 08.\<close>

theorem decode_encode_roundtrip_witness:
  "PARAM_MAP 1 = Some (0x20, 7) \<and> decode [0x41, 0x42, 0x43] 1 = Inr [0x61, 0xF1, 0x08] \<and>
   encode [0x61, 0xF1, 0x08] 1 = Inr [0x41, 0x42, 0x43] \<and>
   decode_encode [0x61, 0xF1, 0x08] 1 = Inr [0x61, 0xF1, 0x08]"
proof -
  have p: "PARAM_MAP 1 = Some (0x20, 7)" by (simp add: PARAM_MAP_def)
  have d: "decode [0x41, 0x42, 0x43] 1 = Inr [0x61, 0xF1, 0x08]"
    by (simp add: decode_def PARAM_MAP_def dec_def dec_loop.simps to_byte_def)
  have "\<forall>c \<in> set [0x41, 0x42, 0x43]. in_alphabet 0x20 7 c" by (simp add: in_alphabet_def)
  moreover have "(7 * length [0x41, 0x42, 0x43 :: int]) mod 8 \<noteq> 0" by simp
  ultimately show ?thesis
    using decode_encode_roundtrip [OF p, of "[0x41, 0x42, 0x43]"] p d by auto
qed

text \<open>
  Claim C1 as stated covers every byte string that encodes without meeting the zero
  group. On track 1 the byte 0x41 is the one group 1000001, of even parity: it encodes
  to \<open>!\<close>, which decodes to 0x01, since \<open>encode\<close> drops the parity bit and \<open>decode\<close>
  computes it anew. On track 2 the five bytes 21 84 10 42 08 are eight groups 00001:
  seven characters come out, and the last byte comes back as 00.
\<close>

theorem decode_encode_not_identity:
  "decode_encode [0x41] 1 = Inr [0x01] \<and> encode [0x41] 1 = Inr [0x21] \<and>
   groups 7 [0x41] = [0x41] \<and>
   decode_encode [0x21, 0x84, 0x10, 0x42, 0x08] 2 = Inr [0x21, 0x84, 0x10, 0x42, 0x00] \<and>
   encode [0x21, 0x84, 0x10, 0x42, 0x08] 2 = Inr [0x31, 0x31, 0x31, 0x31, 0x31, 0x31, 0x31]"
  by code_simp

end
